theory Spec2Isabelle
  imports Main "HOL-Library.Word"
begin

section \<open>The replay memory of expreplay.py\<close>

text \<open>
  The class \<^verbatim>\<open>ReplayMemory\<close> keeps four parallel numpy arrays of \<^verbatim>\<open>max_size\<close>
  slots, a write position, a fill count and a bounded deque of the experiences of the
  episode in progress.

  The state of an experience is a numpy array of bytes (dtype uint8): its shape and its
  elements in row-major order. Inside the memory a frame is the row-major list of the
  elements of one slot, whose shape is \<^verbatim>\<open>state_shape\<close>. The action of an experience is a
  Python int; the action array has dtype int32 and holds integers of that range. The
  memory does no arithmetic on rewards: it converts them to float32 when it stores them,
  returns them and creates zeros. The type of the rewards is a type parameter with a
  zero, and numpy's conversion to float32 is a parameter \<open>float32\<close> of the writing
  functions.
\<close>

datatype error = ValueError | IndexError | ZeroDivisionError | OverflowError

type_synonym frame = "8 word list"

record u8array =
  arr_shape :: "nat list"
  arr_data :: "8 word list"

record 'r Experience =
  state :: u8array
  action :: int
  reward :: 'r
  isOver :: bool

text \<open>
  The attributes \<^verbatim>\<open>self.state\<close>, \<^verbatim>\<open>self.action\<close>, \<^verbatim>\<open>self.reward\<close>,
  \<^verbatim>\<open>self.isOver\<close> are the fields \<open>mem_state\<close>, ... (the field names of the
  experience are taken); \<^verbatim>\<open>self._hist.maxlen\<close> is the field \<open>hist_maxlen\<close>.
\<close>

record 'r ReplayMemory =
  max_size :: nat
  state_shape :: "nat list"
  history_len :: nat
  mem_state :: "frame list"
  mem_action :: "int list"
  mem_reward :: "'r list"
  mem_isOver :: "bool list"
  curr_size :: nat
  curr_pos :: nat
  hist :: "'r Experience list"
  hist_maxlen :: nat

text \<open>
  \<^verbatim>\<open>np.zeros(self.state_shape, dtype="uint8")\<close>: the elements of one zero-filled frame,
  and the array itself.
\<close>

definition zeros :: "nat list \<Rightarrow> frame" where
  "zeros shape = replicate (prod_list shape) 0"

definition zeros_array :: "nat list \<Rightarrow> u8array" where
  "zeros_array shape = \<lparr> arr_shape = shape, arr_data = zeros shape \<rparr>"

text \<open>
  \<^verbatim>\<open>__init__\<close>. The sizes are natural numbers, so numpy's refusal of a negative
  dimension has no branch here; \<^verbatim>\<open>deque(maxlen=history_len - 1)\<close> raises ValueError
  for a negative \<^verbatim>\<open>maxlen\<close>, that is for \<^verbatim>\<open>history_len = 0\<close>.
\<close>

definition ReplayMemory_init :: "nat \<Rightarrow> nat list \<Rightarrow> nat \<Rightarrow> error + ('r::zero) ReplayMemory" where
  "ReplayMemory_init n shape h =
     (if h = 0 then Inl ValueError
      else Inr \<lparr> max_size = n, state_shape = shape, history_len = h,
                 mem_state = replicate n (zeros shape),
                 mem_action = replicate n 0,
                 mem_reward = replicate n 0,
                 mem_isOver = replicate n False,
                 curr_size = 0, curr_pos = 0,
                 hist = [], hist_maxlen = h - 1 \<rparr>)"

text \<open>
  Assignment of an array to a slot, \<^verbatim>\<open>self.state[pos] = exp.state\<close>, broadcasts. numpy
  first drops leading axes of length 1 of the value while it has more axes than the
  slot; a value that still has more axes is refused. The shapes are then aligned at the
  right, the value's missing axes counting as length 1, and every axis of the value must
  have the length of the slot's axis or length 1; an axis of length 1 is repeated.
\<close>

fun strip_ones :: "nat \<Rightarrow> nat list \<Rightarrow> nat list" where
  "strip_ones n [] = []"
| "strip_ones n (v # vs) = (if n < length (v # vs) \<and> v = 1 then strip_ones n vs else v # vs)"

definition pad_ones :: "nat \<Rightarrow> nat list \<Rightarrow> nat list" where
  "pad_ones n vs = replicate (n - length vs) 1 @ vs"

fun broadcastable :: "nat list \<Rightarrow> nat list \<Rightarrow> bool" where
  "broadcastable [] [] = True"
| "broadcastable (v # vs) (t # ts) = ((v = t \<or> v = 1) \<and> broadcastable vs ts)"
| "broadcastable _ _ = False"

text \<open>The first \<open>n\<close> consecutive pieces of length \<open>p\<close> of a list.\<close>

fun chunks :: "nat \<Rightarrow> nat \<Rightarrow> 'a list \<Rightarrow> 'a list list" where
  "chunks p 0 xs = []"
| "chunks p (Suc n) xs = take p xs # chunks p n (drop p xs)"

text \<open>
  The elements, in row-major order, of a value of shape \<open>vs\<close> broadcast to the shape
  \<open>ts\<close> (of the same number of axes).
\<close>

fun bcast_data :: "nat list \<Rightarrow> nat list \<Rightarrow> 'a list \<Rightarrow> 'a list" where
  "bcast_data (v # vs) (t # ts) xs =
     (if v = t then concat (map (bcast_data vs ts) (chunks (prod_list vs) t xs))
      else concat (replicate t (bcast_data vs ts xs)))"
| "bcast_data _ _ xs = xs"

definition broadcast_into :: "nat list \<Rightarrow> u8array \<Rightarrow> frame option" where
  "broadcast_into ts a =
     (let vs = strip_ones (length ts) (arr_shape a) in
      if length ts < length vs then None
      else if broadcastable (pad_ones (length ts) vs) ts
      then Some (bcast_data (pad_ones (length ts) vs) ts (arr_data a))
      else None)"

text \<open>The Python ints that an int32 holds; numpy raises OverflowError for any other.\<close>

definition int32_range :: "int \<Rightarrow> bool" where
  "int32_range a \<longleftrightarrow> - (2 ^ 31) \<le> a \<and> a < 2 ^ 31"

text \<open>
  \<^verbatim>\<open>_assign\<close>: four assignments in the order of the source, each at the same index.
  An assignment that raises leaves the earlier ones done, so a raise comes with the
  memory as it is then: \<open>Inl (e, m')\<close>. numpy raises IndexError for an index outside
  the array, ValueError for a state it cannot broadcast into the slot, and OverflowError
  for a Python int outside int32. The reward is stored as \<open>float32\<close> converts it.
\<close>

definition assign ::
  "('r \<Rightarrow> 'r) \<Rightarrow> 'r ReplayMemory \<Rightarrow> nat \<Rightarrow> 'r Experience \<Rightarrow>
     (error \<times> 'r ReplayMemory) + 'r ReplayMemory" where
  "assign float32 m pos exp =
     (if length (mem_state m) \<le> pos then Inl (IndexError, m)
      else
        (case broadcast_into (state_shape m) (state exp) of
           None \<Rightarrow> Inl (ValueError, m)
         | Some f \<Rightarrow>
             let m1 = m\<lparr> mem_state := (mem_state m)[pos := f] \<rparr> in
             if length (mem_reward m) \<le> pos then Inl (IndexError, m1)
             else
               let m2 = m1\<lparr> mem_reward := (mem_reward m)[pos := float32 (reward exp)] \<rparr> in
               if length (mem_action m) \<le> pos then Inl (IndexError, m2)
               else if \<not> int32_range (action exp) then Inl (OverflowError, m2)
               else
                 let m3 = m2\<lparr> mem_action := (mem_action m)[pos := action exp] \<rparr> in
                 if length (mem_isOver m) \<le> pos then Inl (IndexError, m3)
                 else Inr (m3\<lparr> mem_isOver := (mem_isOver m)[pos := isOver exp] \<rparr>)))"

text \<open>
  \<^verbatim>\<open>deque.append\<close> of a deque with \<^verbatim>\<open>maxlen\<close>: the item goes in on the right, and
  the leftmost item is dropped when the deque is then longer than \<^verbatim>\<open>maxlen\<close>.
\<close>

definition deque_append :: "nat \<Rightarrow> 'a list \<Rightarrow> 'a \<Rightarrow> 'a list" where
  "deque_append maxlen q x =
     (let q' = q @ [x] in if maxlen < length q' then tl q' else q')"

text \<open>
  \<^verbatim>\<open>append\<close>. Both branches of the source write and advance; only the first counts.
  The deque receives the experience itself, as it was passed.
\<close>

definition append_exp ::
  "('r \<Rightarrow> 'r) \<Rightarrow> 'r ReplayMemory \<Rightarrow> 'r Experience \<Rightarrow>
     (error \<times> 'r ReplayMemory) + 'r ReplayMemory" where
  "append_exp float32 m exp =
     (case assign float32 m (curr_pos m) exp of
        Inl e \<Rightarrow> Inl e
      | Inr m1 \<Rightarrow>
          if max_size m = 0 then Inl (ZeroDivisionError, m1)
          else
            let m2 = (if curr_size m < max_size m
                      then m1\<lparr> curr_pos := (curr_pos m + 1) mod max_size m,
                                curr_size := curr_size m + 1 \<rparr>
                      else m1\<lparr> curr_pos := (curr_pos m + 1) mod max_size m \<rparr>)
            in Inr (if isOver exp then m2\<lparr> hist := [] \<rparr>
                    else m2\<lparr> hist := deque_append (hist_maxlen m) (hist m) exp \<rparr>))"

text \<open>A run of appends, stopping at the first one that raises.\<close>

fun appends ::
  "('r \<Rightarrow> 'r) \<Rightarrow> 'r ReplayMemory \<Rightarrow> 'r Experience list \<Rightarrow>
     (error \<times> 'r ReplayMemory) + 'r ReplayMemory" where
  "appends float32 m [] = Inr m"
| "appends float32 m (e # es) =
     (case append_exp float32 m e of Inl err \<Rightarrow> Inl err | Inr m' \<Rightarrow> appends float32 m' es)"

text \<open>\<^verbatim>\<open>__len__\<close>.\<close>

definition len :: "'r ReplayMemory \<Rightarrow> nat" where
  "len m = curr_size m"

text \<open>
  The transition held by slot \<open>i\<close> of the four arrays; its state is an array of the
  shape of the slots.
\<close>

definition slot :: "'r ReplayMemory \<Rightarrow> nat \<Rightarrow> 'r Experience" where
  "slot m i = \<lparr> state = \<lparr> arr_shape = state_shape m, arr_data = mem_state m ! i \<rparr>,
               action = mem_action m ! i,
               reward = mem_reward m ! i, isOver = mem_isOver m ! i \<rparr>"

text \<open>
  The representation invariant of the memory: what \<^verbatim>\<open>__init__\<close> sets up for a positive
  capacity and every \<^verbatim>\<open>append\<close> keeps.
\<close>

definition mem_inv :: "'r ReplayMemory \<Rightarrow> bool" where
  "mem_inv m \<longleftrightarrow>
     0 < max_size m \<and>
     length (mem_state m) = max_size m \<and> length (mem_action m) = max_size m \<and>
     length (mem_reward m) = max_size m \<and> length (mem_isOver m) = max_size m \<and>
     list_all (\<lambda>f. length f = prod_list (state_shape m)) (mem_state m) \<and>
     curr_size m \<le> max_size m \<and> curr_pos m < max_size m \<and>
     0 < history_len m \<and> hist_maxlen m = history_len m - 1 \<and>
     length (hist m) \<le> hist_maxlen m \<and>
     list_all (\<lambda>e. \<not> isOver e) (hist m)"

text \<open>
  The experiences that \<^verbatim>\<open>append\<close> is meant for: the state is an array of the configured
  shape, and the action is an int32.
\<close>

definition shaped :: "nat list \<Rightarrow> 'r Experience \<Rightarrow> bool" where
  "shaped shape e \<longleftrightarrow>
     arr_shape (state e) = shape \<and> length (arr_data (state e)) = prod_list shape \<and>
     int32_range (action e)"

text \<open>What a slot holds once \<open>e\<close> is written to it: \<open>e\<close> with its reward converted.\<close>

definition stored :: "('r \<Rightarrow> 'r) \<Rightarrow> 'r Experience \<Rightarrow> 'r Experience" where
  "stored float32 e = e\<lparr> reward := float32 (reward e) \<rparr>"

text \<open>
  Reading. A basic slice \<^verbatim>\<open>self.state[a:b]\<close> is a numpy view: it shares the memory of
  \<^verbatim>\<open>self.state\<close>, and a write through it is a write to the replay memory. The result of
  \<^verbatim>\<open>np.concatenate\<close> or \<^verbatim>\<open>copy.deepcopy\<close> owns its data. The window of states that
  \<^verbatim>\<open>sample\<close> hands to \<^verbatim>\<open>_pad_sample\<close> is therefore either a view, given by its bounds,
  or an array of its own; operations on it take and return the memory.
\<close>

datatype ndarray = View nat nat | Owned "frame list"

text \<open>\<^verbatim>\<open>arr[a:b]\<close> for \<^verbatim>\<open>0 <= a\<close>, \<^verbatim>\<open>0 <= b\<close>: a slice is cut at the end of the array.\<close>

definition py_slice :: "'a list \<Rightarrow> nat \<Rightarrow> nat \<Rightarrow> 'a list" where
  "py_slice arr a b = drop a (take b arr)"

definition read_arr :: "'r ReplayMemory \<Rightarrow> ndarray \<Rightarrow> frame list" where
  "read_arr m arr = (case arr of View a b \<Rightarrow> py_slice (mem_state m) a b | Owned fs \<Rightarrow> fs)"

definition deepcopy :: "'r ReplayMemory \<Rightarrow> ndarray \<Rightarrow> ndarray" where
  "deepcopy m arr = Owned (read_arr m arr)"

text \<open>Zero-filling the frames at the indices \<open>lo \<le> i < hi\<close> of a list of frames.\<close>

definition fill0 :: "frame list \<Rightarrow> nat \<Rightarrow> nat \<Rightarrow> frame list" where
  "fill0 fs lo hi =
     map (\<lambda>i. if lo \<le> i \<and> i < hi then map (\<lambda>_. 0) (fs ! i) else fs ! i) [0..<length fs]"

text \<open>\<^verbatim>\<open>state[:n].fill(0)\<close>: through a view the zeros land in \<^verbatim>\<open>self.state\<close>.\<close>

definition fill_prefix :: "'r ReplayMemory \<Rightarrow> ndarray \<Rightarrow> nat \<Rightarrow> ndarray \<times> 'r ReplayMemory" where
  "fill_prefix m arr n =
     (case arr of
        Owned fs \<Rightarrow> (Owned (fill0 fs 0 n), m)
      | View a b \<Rightarrow> (View a b, m\<lparr> mem_state := fill0 (mem_state m) a (min (a + n) b) \<rparr>))"

text \<open>
  The loop of \<^verbatim>\<open>_pad_sample\<close> over \<^verbatim>\<open>range(self.history_len - 2, -1, -1)\<close>; the list
  of positions is passed by the caller. \<^verbatim>\<open>isOver[k]\<close> raises IndexError beyond the
  window.
\<close>

fun pad_loop ::
  "'r ReplayMemory \<Rightarrow> ndarray \<Rightarrow> bool list \<Rightarrow> nat list \<Rightarrow> error + (ndarray \<times> 'r ReplayMemory)" where
  "pad_loop m st isOver_w [] = Inr (st, m)"
| "pad_loop m st isOver_w (k # ks) =
     (if length isOver_w \<le> k then Inl IndexError
      else if isOver_w ! k then Inr (fill_prefix m (deepcopy m st) (k + 1))
      else pad_loop m st isOver_w ks)"

text \<open>
  \<^verbatim>\<open>state.transpose(1, 2, 0)\<close> (or \<^verbatim>\<open>(1, 2, 3, 0)\<close>): the frame axis becomes the last
  one. On flattened frames of \<open>p\<close> elements the result has, for each element position,
  the values of the frames in order.
\<close>

definition frames_last :: "frame list \<Rightarrow> nat \<Rightarrow> 8 word list list" where
  "frames_last fs p = map (\<lambda>i. map (\<lambda>f. f ! i) fs) [0..<p]"

text \<open>\<^verbatim>\<open>arr[-2]\<close>.\<close>

definition second_last :: "'a list \<Rightarrow> error + 'a" where
  "second_last arr = (if length arr < 2 then Inl IndexError else Inr (arr ! (length arr - 2)))"

text \<open>
  \<^verbatim>\<open>_pad_sample\<close>. The window has one axis more than a frame; a window of four axes is
  transposed with \<^verbatim>\<open>(1, 2, 3, 0)\<close>, every other one with \<^verbatim>\<open>(1, 2, 0)\<close>, which numpy
  refuses (ValueError) unless the window has three axes.
\<close>

definition pad_sample ::
  "'r ReplayMemory \<Rightarrow> ndarray \<Rightarrow> 'r list \<Rightarrow> int list \<Rightarrow> bool list \<Rightarrow>
     error + ((8 word list list \<times> 'r \<times> int \<times> bool) \<times> 'r ReplayMemory)" where
  "pad_sample m st reward_w action_w isOver_w =
     (case pad_loop m st isOver_w (rev [0..<history_len m - 1]) of
        Inl e \<Rightarrow> Inl e
      | Inr (st', m') \<Rightarrow>
          if length (state_shape m) + 1 \<noteq> 4 \<and> length (state_shape m) + 1 \<noteq> 3
          then Inl ValueError
          else
            (case second_last reward_w of
               Inl e \<Rightarrow> Inl e
             | Inr r \<Rightarrow>
                 (case second_last action_w of
                    Inl e \<Rightarrow> Inl e
                  | Inr a \<Rightarrow>
                      (case second_last isOver_w of
                         Inl e \<Rightarrow> Inl e
                       | Inr t \<Rightarrow>
                           Inr ((frames_last (read_arr m' st') (prod_list (state_shape m)),
                                 r, a, t), m')))))"

text \<open>\<^verbatim>\<open>_slice\<close>: \<^verbatim>\<open>np.concatenate((arr[start:], arr[:end]))\<close>, for \<^verbatim>\<open>0 <= end\<close>.\<close>

definition slice_arr :: "'a list \<Rightarrow> nat \<Rightarrow> nat \<Rightarrow> 'a list" where
  "slice_arr arr start end = drop start arr @ take end arr"

text \<open>
  The physical index that \<^verbatim>\<open>sample\<close> computes from its argument, for a memory that
  is not empty. Python's \<^verbatim>\<open>%\<close> takes the sign of the divisor, as \<open>mod\<close> on \<open>int\<close> does.
\<close>

definition phys :: "'r ReplayMemory \<Rightarrow> int \<Rightarrow> nat" where
  "phys m idx = nat ((int (curr_pos m) + idx) mod int (curr_size m))"

text \<open>
  \<^verbatim>\<open>sample\<close>, for an index that is a Python int. An empty memory makes the modulus
  zero, and \<^verbatim>\<open>%\<close> raises ZeroDivisionError.
\<close>

definition sample ::
  "'r ReplayMemory \<Rightarrow> int \<Rightarrow>
     error + ((8 word list list \<times> 'r \<times> int \<times> bool) \<times> 'r ReplayMemory)" where
  "sample m idx0 =
     (if curr_size m = 0 then Inl ZeroDivisionError
      else
        let idx = phys m idx0; k = history_len m + 1 in
        if idx + k \<le> curr_size m then
          pad_sample m (View idx (idx + k))
            (py_slice (mem_reward m) idx (idx + k))
            (py_slice (mem_action m) idx (idx + k))
            (py_slice (mem_isOver m) idx (idx + k))
        else
          let end = idx + k - curr_size m in
          pad_sample m (Owned (slice_arr (mem_state m) idx end))
            (slice_arr (mem_reward m) idx end)
            (slice_arr (mem_action m) idx end)
            (slice_arr (mem_isOver m) idx end))"

text \<open>
  \<^verbatim>\<open>recent_state\<close>. It builds a new list from the deque and assigns to nothing of the
  memory, so it is a function of the memory; so is \<open>len\<close>. A negative repeat count gives
  the empty list in Python, as the truncated subtraction does here.
\<close>

definition recent_state :: "'r ReplayMemory \<Rightarrow> u8array list" where
  "recent_state m =
     replicate (hist_maxlen m - length (hist m)) (zeros_array (state_shape m)) @
     map state (hist m)"

text \<open>
  The window of a sample is complete when its \<open>history_len + 1\<close> transitions are read
  from the slots at \<open>idx, idx + 1, ...\<close> (modulo the capacity): the window lies below the
  fill count, or the memory is full and the window wraps at most once.
\<close>

definition window_ok :: "'r ReplayMemory \<Rightarrow> int \<Rightarrow> bool" where
  "window_ok m idx0 \<longleftrightarrow>
     0 < curr_size m \<and>
     (phys m idx0 + history_len m + 1 \<le> curr_size m \<or>
      (curr_size m = max_size m \<and> phys m idx0 + history_len m + 1 \<le> 2 * max_size m))"

text \<open>
  The four windows that \<^verbatim>\<open>sample\<close> cuts from the arrays, as a function of the array:
  the plain slice, or the two slices of \<^verbatim>\<open>_slice\<close> joined.
\<close>

definition window_read :: "'r ReplayMemory \<Rightarrow> int \<Rightarrow> 'a list \<Rightarrow> 'a list" where
  "window_read m idx0 arr =
     (let idx = phys m idx0; k = history_len m + 1 in
      if idx + k \<le> curr_size m then py_slice arr idx (idx + k)
      else slice_arr arr idx (idx + k - curr_size m))"

text \<open>Frame \<open>j\<close> of a stacked state whose frame axis is the last one.\<close>

definition stack_frame :: "8 word list list \<Rightarrow> nat \<Rightarrow> frame" where
  "stack_frame st j = map (\<lambda>px. px ! j) st"

section \<open>The periodic triggers\<close>

text \<open>
  \<^verbatim>\<open>ExpReplay._trigger\<close> and \<^verbatim>\<open>Evaluator._trigger\<close> call into the training framework
  (\<^verbatim>\<open>trainer.monitors.put_scalar\<close>, the \<^verbatim>\<open>StatCounter\<close> properties, \<^verbatim>\<open>np.asscalar\<close>),
  which is not part of this repository. What each such call does is a parameter: it
  returns, or it raises. \<^verbatim>\<open>except Exception\<close> catches the instances of \<^verbatim>\<open>Exception\<close>
  and no other \<^verbatim>\<open>BaseException\<close> (such as \<^verbatim>\<open>KeyboardInterrupt\<close>).
\<close>

datatype exn = ExceptionInstance | OtherBaseException

datatype 'v event =
    PutScalar string 'v
  | LogException string
  | ResetScores
  | ResetDistError
  | ResetStat


text \<open>
  A run is the list of the effects performed so far, in order, and the exception that
  has left the code, if any.
\<close>

type_synonym 'v run = "'v event list \<times> exn option"









section \<open>Example memories\<close>

text \<open>
  numpy's conversion to float32 on rewards that are integers: an integer of more than
  24 bits is rounded to 24 significant bits, ties to the even neighbour. (Integers of
  magnitude \<open>2 ^ 128\<close> and more, which numpy turns into infinities, are not meant.)
\<close>

function bit_length :: "int \<Rightarrow> nat" where
  "bit_length a = (if a \<le> 0 then 0 else Suc (bit_length (a div 2)))"
  by pat_completeness auto
termination
  by (relation "measure nat") auto

definition float32_int :: "int \<Rightarrow> int" where
  "float32_int x =
     (let a = \<bar>x\<bar>; e = bit_length a - 24; q = a div 2 ^ e; r = a mod 2 ^ e;
          q' = (if 2 ^ e < 2 * r \<or> (2 * r = 2 ^ e \<and> odd q) then q + 1 else q)
      in (if x < 0 then - (q' * 2 ^ e) else q' * 2 ^ e))"

text \<open>
  The scenario of the specification: capacity 5, history length 2, frames of shape
  1 x 1, and the experiences with the states 1, 2, 3 (terminal), 4, 5. Experience \<open>n\<close>
  has action \<open>n\<close> and reward \<open>n\<close>. \<open>scen_mem n\<close>, for \<open>n \<le> 5\<close>, is the memory after
  the first \<open>n\<close> appends, written out.
\<close>

definition scen_exp :: "nat \<Rightarrow> int Experience" where
  "scen_exp n = \<lparr> state = \<lparr> arr_shape = [1, 1], arr_data = [of_nat n] \<rparr>,
                  action = int n, reward = int n, isOver = (n = 3) \<rparr>"

definition scen_mem :: "nat \<Rightarrow> int ReplayMemory" where
  "scen_mem n =
     \<lparr> max_size = 5, state_shape = [1, 1], history_len = 2,
       mem_state = map (\<lambda>i. [if i \<le> n then of_nat i else 0]) [1, 2, 3, 4, 5],
       mem_action = map (\<lambda>i. if i \<le> n then int i else 0) [1, 2, 3, 4, 5],
       mem_reward = map (\<lambda>i. if i \<le> n then int i else 0) [1, 2, 3, 4, 5],
       mem_isOver = map (\<lambda>i. i \<le> n \<and> i = 3) [1, 2, 3, 4, 5],
       curr_size = n, curr_pos = n mod 5,
       hist = (if n = 0 \<or> n = 3 then [] else [scen_exp n]), hist_maxlen = 1 \<rparr>"

section \<open>Appending\<close>

lemma mem_inv_init:
  assumes "0 < n" "0 < h" "ReplayMemory_init n shape h = Inr m"
  shows "mem_inv m"
  using assms by (auto simp: ReplayMemory_init_def mem_inv_def zeros_def list_all_length)

lemma init_fields:
  assumes "ReplayMemory_init n shape h = Inr m"
  shows "max_size m = n" "state_shape m = shape" "history_len m = h"
        "curr_size m = 0" "curr_pos m = 0" "hist m = []" "hist_maxlen m = h - 1"
  using assms by (auto simp: ReplayMemory_init_def split: if_splits)

lemma deque_append_length: "length q \<le> k \<Longrightarrow> length (deque_append k q x) \<le> k"
  by (auto simp: deque_append_def Let_def)

lemma deque_append_set: "set (deque_append k q x) \<subseteq> insert x (set q)"
  by (cases q) (auto simp: deque_append_def Let_def)

lemma concat_chunks: "length xs = n * p \<Longrightarrow> concat (chunks p n xs) = xs"
  by (induction n arbitrary: xs) simp_all

lemma chunks_length:
  "length xs = n * p \<Longrightarrow> c \<in> set (chunks p n xs) \<Longrightarrow> length c = p"
proof (induction n arbitrary: xs)
  case 0
  then show ?case by simp
next
  case (Suc n)
  from Suc.prems(1) have "length (drop p xs) = n * p" by simp
  from Suc.IH[OF this] Suc.prems show ?case by auto
qed

lemma bcast_data_same: "length xs = prod_list ts \<Longrightarrow> bcast_data ts ts xs = xs"
proof (induction ts arbitrary: xs)
  case Nil
  then show ?case by simp
next
  case (Cons t ts)
  from Cons.prems have len: "length xs = t * prod_list ts" by simp
  have "map (bcast_data ts ts) (chunks (prod_list ts) t xs) = chunks (prod_list ts) t xs"
    using chunks_length[OF len] Cons.IH by (intro map_idI) simp
  then show ?case using concat_chunks[OF len] by simp
qed

lemma strip_ones_same: "strip_ones (length ts) ts = ts"
  by (cases ts) simp_all

lemma broadcastable_same: "broadcastable ts ts"
  by (induction ts) simp_all

lemma broadcast_into_same:
  assumes "arr_shape a = ts" "length (arr_data a) = prod_list ts"
  shows "broadcast_into ts a = Some (arr_data a)"
  using assms
  by (simp add: broadcast_into_def strip_ones_same pad_ones_def broadcastable_same
        bcast_data_same)

text \<open>
  Broadcasting on examples: a row is repeated down a 2 x 2 slot, a column across it, a
  scalar everywhere; leading axes of length 1 are dropped; four elements in a row do not
  fit a 2 x 2 slot, nor does a value of shape 2 x 1 x 2.
\<close>

lemma broadcast_into_examples:
  "broadcast_into [2, 2] \<lparr>arr_shape = [2], arr_data = [1, 2]\<rparr> = Some [1, 2, 1, 2]"
  "broadcast_into [2, 2] \<lparr>arr_shape = [2, 1], arr_data = [1, 2]\<rparr> = Some [1, 1, 2, 2]"
  "broadcast_into [2, 2] \<lparr>arr_shape = [], arr_data = [7]\<rparr> = Some [7, 7, 7, 7]"
  "broadcast_into [2, 2] \<lparr>arr_shape = [1, 1, 2, 2], arr_data = [1, 2, 3, 4]\<rparr>
     = Some [1, 2, 3, 4]"
  "broadcast_into [2, 2] \<lparr>arr_shape = [4], arr_data = [1, 2, 3, 4]\<rparr> = None"
  "broadcast_into [2, 2] \<lparr>arr_shape = [2, 1, 2], arr_data = [1, 2, 3, 4]\<rparr> = None"
  by code_simp+

text \<open>
  The conversion of integer rewards on examples: 24 bits are kept, a tie goes to the
  even neighbour.
\<close>

lemma float32_int_examples:
  "float32_int 5 = 5" "float32_int (- 7) = - 7" "float32_int 16777216 = 16777216"
  "float32_int 16777217 = 16777216" "float32_int 16777219 = 16777220"
  "float32_int (- 16777217) = - 16777216"
  by code_simp+

text \<open>
  An append that raises leaves a partial write: an action outside int32 raises after
  the state and the reward have been stored, and before the action, the terminal flag,
  the write position and the deque are touched.
\<close>

lemma append_exp_overflow_example:
  "append_exp float32_int (scen_mem 5) ((scen_exp 6)\<lparr>action := 2 ^ 31\<rparr>) =
     Inl (OverflowError,
          (scen_mem 5)\<lparr> mem_state := [[6], [2], [3], [4], [5]],
                         mem_reward := [6, 2, 3, 4, 5] \<rparr>)"
  by code_simp

lemma append_exp_step:
  assumes inv: "mem_inv m" and sh: "shaped (state_shape m) e"
  obtains m' where "append_exp float32 m e = Inr m'"
    and "mem_inv m'"
    and "max_size m' = max_size m" "state_shape m' = state_shape m"
        "history_len m' = history_len m" "hist_maxlen m' = hist_maxlen m"
    and "curr_size m' = min (curr_size m + 1) (max_size m)"
    and "curr_pos m' = (curr_pos m + 1) mod max_size m"
    and "slot m' (curr_pos m) = stored float32 e"
    and "\<And>i. i \<noteq> curr_pos m \<Longrightarrow> slot m' i = slot m i"
    and "hist m' = (if isOver e then [] else deque_append (hist_maxlen m) (hist m) e)"
proof -
  define m1 where "m1 = m\<lparr> mem_state := (mem_state m)[curr_pos m := arr_data (state e)],
                    mem_reward := (mem_reward m)[curr_pos m := float32 (reward e)],
                    mem_action := (mem_action m)[curr_pos m := action e],
                    mem_isOver := (mem_isOver m)[curr_pos m := isOver e] \<rparr>"
  define m' where "m' = m1\<lparr> curr_pos := (curr_pos m + 1) mod max_size m,
       curr_size := min (curr_size m + 1) (max_size m),
       hist := (if isOver e then [] else deque_append (hist_maxlen m) (hist m) e) \<rparr>"
  have bc: "broadcast_into (state_shape m) (state e) = Some (arr_data (state e))"
    using sh by (intro broadcast_into_same) (simp_all add: shaped_def)
  have a: "assign float32 m (curr_pos m) e = Inr m1"
    using inv sh by (simp add: assign_def bc mem_inv_def shaped_def m1_def Let_def)
  have b: "append_exp float32 m e = Inr m'"
    using inv by (auto simp: append_exp_def a Let_def m'_def m1_def mem_inv_def min_def)
  have frames: "list_all (\<lambda>f. length f = prod_list (state_shape m))
                  ((mem_state m)[curr_pos m := arr_data (state e)])"
    using inv sh unfolding mem_inv_def shaped_def list_all_iff
    by (auto dest!: set_update_subset_insert[THEN subsetD])
  have h1: "length (deque_append (hist_maxlen m) (hist m) e) \<le> hist_maxlen m"
    using inv by (simp add: deque_append_length mem_inv_def)
  have h2: "\<not> isOver e \<Longrightarrow> list_all (\<lambda>e. \<not> isOver e) (deque_append (hist_maxlen m) (hist m) e)"
    using inv deque_append_set[of "hist_maxlen m" "hist m" e]
    unfolding mem_inv_def list_all_iff by auto
  have c: "mem_inv m'"
    using inv frames h1 h2 by (simp add: mem_inv_def m'_def m1_def)
  have st: "state e = \<lparr> arr_shape = state_shape m, arr_data = arr_data (state e) \<rparr>"
    using sh by (simp add: shaped_def)
  have d: "slot m' (curr_pos m) = stored float32 e"
    using inv st by (simp add: slot_def stored_def m'_def m1_def mem_inv_def)
  have e: "\<And>i. i \<noteq> curr_pos m \<Longrightarrow> slot m' i = slot m i"
    by (simp add: slot_def m'_def m1_def)
  show thesis
    by (rule that[OF b c _ _ _ _ _ _ d e]) (simp_all add: m'_def m1_def)
qed

lemma appends_append:
  "appends float32 m (xs @ ys) =
     (case appends float32 m xs of Inl e \<Rightarrow> Inl e | Inr m' \<Rightarrow> appends float32 m' ys)"
  by (induction xs arbitrary: m) (auto split: sum.splits)

lemma mod_neq_within:
  fixes a b C :: nat
  assumes "a < b" "b < a + C"
  shows "a mod C \<noteq> b mod C"
proof
  assume "a mod C = b mod C"
  then have "C dvd b - a"
    using assms(1) by (metis less_imp_le_nat mod_eq_dvd_iff_nat)
  moreover have "0 < b - a" "b - a < C" using assms by arith+
  ultimately show False using nat_dvd_not_less by blast
qed

lemma ring_from_init:
  assumes C: "0 < C" and h: "0 < h" and init: "ReplayMemory_init C shape h = Inr m0"
    and sh: "list_all (shaped shape) es"
  shows "\<exists>m. appends float32 m0 es = Inr m \<and> mem_inv m \<and> max_size m = C \<and>
           state_shape m = shape \<and>
           history_len m = h \<and> curr_size m = min (length es) C \<and>
           curr_pos m = length es mod C \<and>
           (\<forall>a<length es. length es \<le> a + C \<longrightarrow> slot m (a mod C) = stored float32 (es ! a))"
  using sh
proof (induction es rule: rev_induct)
  case Nil
  show ?case using mem_inv_init[OF C h init] init_fields[OF init] by simp
next
  case (snoc e es)
  from snoc.prems have shes: "list_all (shaped shape) es" and she: "shaped shape e" by simp_all
  from snoc.IH[OF shes] obtain m where
    run: "appends float32 m0 es = Inr m" and inv: "mem_inv m" and
    par: "max_size m = C" "state_shape m = shape" "history_len m = h" and
    sz: "curr_size m = min (length es) C" and pos: "curr_pos m = length es mod C" and
    sl: "\<forall>a<length es. length es \<le> a + C \<longrightarrow> slot m (a mod C) = stored float32 (es ! a)"
    by blast
  from she par have she': "shaped (state_shape m) e" by simp
  from append_exp_step[OF inv she', of float32] obtain m' where
    st: "append_exp float32 m e = Inr m'" and inv': "mem_inv m'" and
    par': "max_size m' = max_size m" "state_shape m' = state_shape m"
          "history_len m' = history_len m" and
    sz': "curr_size m' = min (curr_size m + 1) (max_size m)" and
    pos': "curr_pos m' = (curr_pos m + 1) mod max_size m" and
    new: "slot m' (curr_pos m) = stored float32 e" and
    old: "\<And>i. i \<noteq> curr_pos m \<Longrightarrow> slot m' i = slot m i"
    by metis
  have run': "appends float32 m0 (es @ [e]) = Inr m'"
    by (simp add: appends_append run st)
  have sz'': "curr_size m' = min (length (es @ [e])) C"
    using sz' sz par by simp
  have pos'': "curr_pos m' = length (es @ [e]) mod C"
    using pos' pos par by (simp add: mod_Suc_eq)
  have sl': "slot m' (a mod C) = stored float32 ((es @ [e]) ! a)"
    if a: "a < length (es @ [e])" "length (es @ [e]) \<le> a + C" for a
  proof (cases "a = length es")
    case True
    then show ?thesis using new pos by simp
  next
    case False
    with a have lt: "a < length es" and le: "length es < a + C" by simp_all
    have "a mod C \<noteq> curr_pos m"
      using mod_neq_within[OF lt le] pos by simp
    then have "slot m' (a mod C) = slot m (a mod C)" by (rule old)
    also have "\<dots> = stored float32 (es ! a)" using sl lt le by simp
    finally show ?thesis using lt by (simp add: nth_append)
  qed
  show ?case
    using run' inv' par' par sz'' pos'' sl' by blast
qed

text \<open>An experience whose reward is a float32 value is stored as it is.\<close>

lemma stored_same: "float32 (reward e) = reward e \<Longrightarrow> stored float32 e = e"
  by (simp add: stored_def)

text \<open>
  Claim C1. A memory of capacity \<open>C\<close> is created and the experiences \<open>es\<close> are appended
  in order. Every append succeeds. After at most \<open>C\<close> appends \<open>len\<close> is the number of
  appends; after more than \<open>C\<close> appends \<open>len\<close> is \<open>C\<close> and the slot at the write
  position, the one the next append overwrites, holds the \<open>C\<close>-th most recent
  experience. More precisely, each of the last \<open>C\<close> appends, the \<open>a\<close>-th one, is held by
  slot \<open>a mod C\<close>, and a further append writes the slot at the write position and no
  other. (A slot holds an experience as stored, that is with its reward converted to
  float32: the experience itself when its reward is a float32 value.)
\<close>

theorem append_length_and_ring_overwrite:
  assumes "0 < C" and "0 < h" and "list_all (shaped shape) es"
  shows "\<exists>m0 m. ReplayMemory_init C shape h = Inr m0 \<and> appends float32 m0 es = Inr m \<and>
           (length es \<le> C \<longrightarrow> len m = length es) \<and>
           (C < length es \<longrightarrow>
              len m = C \<and> slot m (curr_pos m) = stored float32 (es ! (length es - C))) \<and>
           (\<forall>a<length es. length es \<le> a + C \<longrightarrow> slot m (a mod C) = stored float32 (es ! a)) \<and>
           (\<forall>e. shaped shape e \<longrightarrow>
              (\<exists>m'. append_exp float32 m e = Inr m' \<and> slot m' (curr_pos m) = stored float32 e \<and>
                    (\<forall>i. i \<noteq> curr_pos m \<longrightarrow> slot m' i = slot m i)))"
proof -
  obtain m0 :: "'a ReplayMemory" where init: "ReplayMemory_init C shape h = Inr m0"
    using assms(2) by (auto simp: ReplayMemory_init_def)
  from ring_from_init[OF assms(1,2) init assms(3), of float32] obtain m where
    run: "appends float32 m0 es = Inr m" and inv: "mem_inv m" and
    par: "max_size m = C" "state_shape m = shape" and
    sz: "curr_size m = min (length es) C" and pos: "curr_pos m = length es mod C" and
    sl: "\<forall>a<length es. length es \<le> a + C \<longrightarrow> slot m (a mod C) = stored float32 (es ! a)"
    by blast
  have old: "slot m (curr_pos m) = stored float32 (es ! (length es - C))" if "C < length es"
  proof -
    have "slot m ((length es - C) mod C) = stored float32 (es ! (length es - C))"
      using sl that assms(1) by simp
    moreover have "(length es - C) mod C = length es mod C"
      using that by (simp add: le_mod_geq)
    ultimately show ?thesis using pos by simp
  qed
  have step: "\<exists>m'. append_exp float32 m e = Inr m' \<and> slot m' (curr_pos m) = stored float32 e \<and>
                    (\<forall>i. i \<noteq> curr_pos m \<longrightarrow> slot m' i = slot m i)"
    if "shaped shape e" for e
  proof -
    from that par have "shaped (state_shape m) e" by simp
    from append_exp_step[OF inv this, of float32] show ?thesis by metis
  qed
  show ?thesis
    using init run sz old sl step by (auto simp: len_def)
qed

theorem append_length_and_ring_overwrite_witness:
  "\<exists>m0 m. ReplayMemory_init 2 [1, 1] 2 = Inr m0 \<and>
     appends float32_int m0 [scen_exp 1, scen_exp 3, (scen_exp 4)\<lparr>reward := 16777217\<rparr>] = Inr m \<and>
     len m = 2 \<and>
     slot m (curr_pos m) = scen_exp 3"
proof -
  have sh: "list_all (shaped [1, 1]) [scen_exp 1, scen_exp 3, (scen_exp 4)\<lparr>reward := 16777217\<rparr>]"
    by (simp add: shaped_def scen_exp_def int32_range_def)
  have st: "stored float32_int (scen_exp 3) = scen_exp 3"
    by code_simp
  from append_length_and_ring_overwrite [of 2 2 "[1, 1]"
     "[scen_exp 1, scen_exp 3, (scen_exp 4)\<lparr>reward := 16777217\<rparr>]" float32_int, OF _ _ sh]
  show ?thesis by (simp add: st) blast
qed

section \<open>The deque of recent experiences\<close>

lemma appends_inv:
  assumes "mem_inv m" "list_all (shaped (state_shape m)) es"
  shows "\<exists>m'. appends float32 m es = Inr m' \<and> mem_inv m' \<and> max_size m' = max_size m \<and>
           state_shape m' = state_shape m \<and> history_len m' = history_len m \<and>
           hist_maxlen m' = hist_maxlen m"
  using assms
proof (induction es arbitrary: m)
  case Nil
  then show ?case by simp
next
  case (Cons e es)
  from Cons.prems have she: "shaped (state_shape m) e"
    and shes: "list_all (shaped (state_shape m)) es" by simp_all
  from append_exp_step[OF Cons.prems(1) she] obtain m1 where
    st: "append_exp float32 m e = Inr m1" and inv1: "mem_inv m1" and
    par: "max_size m1 = max_size m" "state_shape m1 = state_shape m"
         "history_len m1 = history_len m" "hist_maxlen m1 = hist_maxlen m"
    by metis
  from Cons.IH[OF inv1] shes par show ?case by (simp add: st)
qed

lemma hist_run:
  assumes "mem_inv m" "list_all (shaped (state_shape m)) es"
    "list_all (\<lambda>e. \<not> isOver e) es" "length (hist m) + length es \<le> hist_maxlen m"
  shows "\<exists>m'. appends float32 m es = Inr m' \<and> hist m' = hist m @ es"
  using assms
proof (induction es arbitrary: m)
  case Nil
  then show ?case by simp
next
  case (Cons e es)
  from Cons.prems have she: "shaped (state_shape m) e"
    and shes: "list_all (shaped (state_shape m)) es"
    and ne: "\<not> isOver e" and nes: "list_all (\<lambda>e. \<not> isOver e) es" by simp_all
  from append_exp_step[OF Cons.prems(1) she] obtain m1 where
    st: "append_exp float32 m e = Inr m1" and inv1: "mem_inv m1" and
    par: "state_shape m1 = state_shape m" "hist_maxlen m1 = hist_maxlen m" and
    h1: "hist m1 = (if isOver e then [] else deque_append (hist_maxlen m) (hist m) e)"
    by metis
  have h1': "hist m1 = hist m @ [e]"
    using h1 ne Cons.prems(4) by (simp add: deque_append_def)
  have "length (hist m1) + length es \<le> hist_maxlen m1"
    using h1' par Cons.prems(4) by simp
  from Cons.IH[OF inv1 _ nes this] shes par h1' show ?case by (simp add: st)
qed

lemma hist_after_episode:
  assumes inv: "mem_inv m" and sh: "list_all (shaped (state_shape m)) es"
    and ep: "(es = [] \<and> hist m = []) \<or> (es \<noteq> [] \<and> isOver (last es))"
  shows "\<exists>m'. appends float32 m es = Inr m' \<and> mem_inv m' \<and> state_shape m' = state_shape m \<and>
           hist_maxlen m' = hist_maxlen m \<and> hist m' = []"
proof (cases "es = []")
  case True
  then show ?thesis using ep inv by simp
next
  case False
  then obtain xs t where es: "es = xs @ [t]" by (metis rev_exhaust)
  with ep have t: "isOver t" by simp
  from sh es have shx: "list_all (shaped (state_shape m)) xs" and sht: "shaped (state_shape m) t"
    by simp_all
  from appends_inv[OF inv shx] obtain m1 where
    r1: "appends float32 m xs = Inr m1" and inv1: "mem_inv m1" and
    par1: "state_shape m1 = state_shape m" "hist_maxlen m1 = hist_maxlen m" by blast
  from sht par1 have "shaped (state_shape m1) t" by simp
  from append_exp_step[OF inv1 this] obtain m2 where
    st: "append_exp float32 m1 t = Inr m2" and inv2: "mem_inv m2" and
    par2: "state_shape m2 = state_shape m1" "hist_maxlen m2 = hist_maxlen m1" and
    h2: "hist m2 = (if isOver t then [] else deque_append (hist_maxlen m1) (hist m1) t)"
    by metis
  show ?thesis
    using r1 st inv2 par1 par2 h2 t by (simp add: es appends_append)
qed

lemma hist_episode_in_progress:
  assumes inv: "mem_inv m" and h0: "hist m = []"
    and sh: "list_all (shaped (state_shape m)) (es1 @ es2)"
    and ep: "es1 = [] \<or> isOver (last es1)"
    and ne: "list_all (\<lambda>e. \<not> isOver e) es2" and le: "length es2 \<le> hist_maxlen m"
  shows "\<exists>m'. appends float32 m (es1 @ es2) = Inr m' \<and> hist m' = es2"
proof -
  from sh have sh1: "list_all (shaped (state_shape m)) es1"
    and sh2: "list_all (shaped (state_shape m)) es2" by simp_all
  from ep h0 have "(es1 = [] \<and> hist m = []) \<or> (es1 \<noteq> [] \<and> isOver (last es1))" by auto
  from hist_after_episode[OF inv sh1 this] obtain m1 where
    r1: "appends float32 m es1 = Inr m1" and inv1: "mem_inv m1" and
    par: "state_shape m1 = state_shape m" "hist_maxlen m1 = hist_maxlen m" and
    e1: "hist m1 = []" by blast
  have "length (hist m1) + length es2 \<le> hist_maxlen m1" using e1 par le by simp
  from hist_run[OF inv1 _ ne this] sh2 par obtain m2 where
    "appends float32 m1 es2 = Inr m2" "hist m2 = hist m1 @ es2" by auto
  then show ?thesis using r1 e1 by (simp add: appends_append)
qed

text \<open>
  Claim C5. After any run of appends to a new memory, \<open>recent_state\<close> returns exactly
  \<open>history_len - 1\<close> frames. At creation and right after a terminal append they are all
  zero frames. When \<open>N \<le> history_len - 1\<close> non-terminal experiences have been appended
  since creation or since the last terminal append, the result is \<open>history_len - 1 - N\<close>
  zero frames followed by the states of these \<open>N\<close> experiences, oldest first.
\<close>

theorem recent_state_zero_padded:
  assumes "0 < C" and "0 < h" and "list_all (shaped shape) es"
  shows "\<exists>m0 m. ReplayMemory_init C shape h = Inr m0 \<and> appends float32 m0 es = Inr m \<and>
           length (recent_state m) = h - 1 \<and>
           (es = [] \<or> isOver (last es) \<longrightarrow> recent_state m = replicate (h - 1) (zeros_array shape)) \<and>
           (\<forall>es1 es2. es = es1 @ es2 \<and> (es1 = [] \<or> isOver (last es1)) \<and>
                list_all (\<lambda>e. \<not> isOver e) es2 \<and> length es2 \<le> h - 1 \<longrightarrow>
                recent_state m =
                  replicate (h - 1 - length es2) (zeros_array shape) @ map state es2)"
proof -
  obtain m0 :: "'a ReplayMemory" where init: "ReplayMemory_init C shape h = Inr m0"
    using assms(2) by (auto simp: ReplayMemory_init_def)
  note inv0 = mem_inv_init[OF assms(1,2) init]
  note f0 = init_fields[OF init]
  from assms(3) f0 have sh: "list_all (shaped (state_shape m0)) es" by simp
  from appends_inv[OF inv0 sh] obtain m where
    run: "appends float32 m0 es = Inr m" and inv: "mem_inv m" and
    par: "state_shape m = state_shape m0" "hist_maxlen m = hist_maxlen m0" by blast
  have ml: "hist_maxlen m = h - 1" and ss: "state_shape m = shape" using par f0 by simp_all
  have len: "length (recent_state m) = h - 1"
  proof -
    have "length (hist m) \<le> h - 1" using inv ml by (simp add: mem_inv_def)
    then show ?thesis by (simp add: recent_state_def ml)
  qed
  have run2: "recent_state m = replicate (h - 1 - length es2) (zeros_array shape) @ map state es2"
    if "es = es1 @ es2" "es1 = [] \<or> isOver (last es1)"
       "list_all (\<lambda>e. \<not> isOver e) es2" "length es2 \<le> h - 1" for es1 es2
  proof -
    have "\<exists>m'. appends float32 m0 (es1 @ es2) = Inr m' \<and> hist m' = es2"
      using hist_episode_in_progress[OF inv0 f0(6) _ that(2,3)] sh that(1,4) f0(7) by simp
    with run that(1) have "hist m = es2" by auto
    then show ?thesis by (simp add: recent_state_def ml ss)
  qed
  have run1: "recent_state m = replicate (h - 1) (zeros_array shape)" if "es = [] \<or> isOver (last es)"
    using run2[of es "[]"] that by simp
  show ?thesis
    using init run len run1 run2 by blast
qed

theorem recent_state_zero_padded_witness:
  "\<exists>m0 m. ReplayMemory_init 2 [1, 1] 4 = Inr m0 \<and>
     appends float32_int m0 [scen_exp 1, scen_exp 3, scen_exp 4, scen_exp 5] = Inr m \<and>
     length (recent_state m) = 3 \<and>
     recent_state m = [zeros_array [1, 1], state (scen_exp 4), state (scen_exp 5)]"
proof -
  let ?es1 = "[scen_exp 1, scen_exp 3]"
  let ?es2 = "[scen_exp 4, scen_exp 5]"
  have sh: "list_all (shaped [1, 1]) (?es1 @ ?es2)"
    by (simp add: shaped_def scen_exp_def int32_range_def)
  from recent_state_zero_padded [of 2 4 "[1, 1]" "?es1 @ ?es2" float32_int, OF _ _ sh]
  obtain m0 m where
    a: "ReplayMemory_init 2 [1, 1] 4 = Inr m0" "appends float32_int m0 (?es1 @ ?es2) = Inr m"
       "length (recent_state m) = 4 - 1" and
    b: "\<forall>es1 es2. ?es1 @ ?es2 = es1 @ es2 \<and> (es1 = [] \<or> isOver (last es1)) \<and>
                list_all (\<lambda>e. \<not> isOver e) es2 \<and> length es2 \<le> 4 - 1 \<longrightarrow>
                recent_state m =
                  replicate (4 - 1 - length es2) (zeros_array [1, 1]) @ map state es2"
    by auto
  from b[rule_format, of ?es1 ?es2]
  have "recent_state m = [zeros_array [1, 1], state (scen_exp 4), state (scen_exp 5)]"
    by (simp add: scen_exp_def)
  with a show ?thesis by auto
qed

text \<open>
  Claim C6. After any run of appends to a new memory the deque \<open>hist\<close> holds no terminal
  experience and at most \<open>history_len - 1\<close> entries. A further append of a terminal
  experience leaves it empty; a further append of a non-terminal one puts it at the end
  of the deque, and drops the oldest entry when the deque was at its bound.
\<close>

theorem recent_history_bounded_nonterminal:
  assumes "0 < C" and "0 < h" and "list_all (shaped shape) es"
  shows "\<exists>m0 m. ReplayMemory_init C shape h = Inr m0 \<and> appends float32 m0 es = Inr m \<and>
           list_all (\<lambda>e. \<not> isOver e) (hist m) \<and> length (hist m) \<le> h - 1 \<and>
           (\<forall>e. shaped shape e \<longrightarrow>
              (\<exists>m'. append_exp float32 m e = Inr m' \<and>
                 hist m' = (if isOver e then []
                            else if length (hist m) < h - 1 then hist m @ [e]
                            else tl (hist m @ [e]))))"
proof -
  obtain m0 :: "'a ReplayMemory" where init: "ReplayMemory_init C shape h = Inr m0"
    using assms(2) by (auto simp: ReplayMemory_init_def)
  note inv0 = mem_inv_init[OF assms(1,2) init]
  note f0 = init_fields[OF init]
  from assms(3) f0 have sh: "list_all (shaped (state_shape m0)) es" by simp
  from appends_inv[OF inv0 sh] obtain m where
    run: "appends float32 m0 es = Inr m" and inv: "mem_inv m" and
    par: "state_shape m = state_shape m0" "hist_maxlen m = hist_maxlen m0" by blast
  have ml: "hist_maxlen m = h - 1" and ss: "state_shape m = shape" using par f0 by simp_all
  have nt: "list_all (\<lambda>e. \<not> isOver e) (hist m)"
    using inv by (simp add: mem_inv_def list_all_iff)
  have bd: "length (hist m) \<le> h - 1"
    using inv ml by (simp add: mem_inv_def)
  have step: "\<exists>m'. append_exp float32 m e = Inr m' \<and>
                 hist m' = (if isOver e then []
                            else if length (hist m) < h - 1 then hist m @ [e]
                            else tl (hist m @ [e]))"
    if "shaped shape e" for e
  proof -
    from that ss have "shaped (state_shape m) e" by simp
    from append_exp_step[OF inv this] obtain m' where
      st: "append_exp float32 m e = Inr m'" and
      hm: "hist m' = (if isOver e then [] else deque_append (hist_maxlen m) (hist m) e)"
      by metis
    have "deque_append (h - 1) (hist m) e =
            (if length (hist m) < h - 1 then hist m @ [e] else tl (hist m @ [e]))"
      using bd by (auto simp: deque_append_def)
    with st hm ml show ?thesis by simp
  qed
  show ?thesis
    using init run nt bd step by blast
qed

theorem recent_history_bounded_nonterminal_witness:
  "\<exists>m0 m m'. ReplayMemory_init 2 [1, 1] 2 = Inr m0 \<and>
     appends float32_int m0 [scen_exp 3, scen_exp 4] = Inr m \<and>
     list_all (\<lambda>e. \<not> isOver e) (hist m) \<and> length (hist m) \<le> 1 \<and>
     append_exp float32_int m (scen_exp 5) = Inr m' \<and>
     hist m' = tl (hist m @ [scen_exp 5]) \<and> hist m = [scen_exp 4] \<and> hist m' = [scen_exp 5]"
proof -
  let ?es = "[scen_exp 3, scen_exp 4]"
  have sh: "list_all (shaped [1, 1]) ?es" "shaped [1, 1] (scen_exp 5)"
    by (simp_all add: shaped_def scen_exp_def int32_range_def)
  from recent_history_bounded_nonterminal [of 2 2 "[1, 1]" ?es float32_int, OF _ _ sh(1)]
  obtain m0 m where
    a: "ReplayMemory_init 2 [1, 1] 2 = Inr m0" "appends float32_int m0 ?es = Inr m"
       "list_all (\<lambda>e. \<not> isOver e) (hist m)" "length (hist m) \<le> 2 - 1" and
    b: "\<forall>e. shaped [1, 1] e \<longrightarrow>
              (\<exists>m'. append_exp float32_int m e = Inr m' \<and>
                 hist m' = (if isOver e then []
                            else if length (hist m) < 2 - 1 then hist m @ [e]
                            else tl (hist m @ [e])))"
    by auto
  have m0: "m0 = \<lparr> max_size = 2, state_shape = [1, 1], history_len = 2,
                  mem_state = [[0], [0]], mem_action = [0, 0], mem_reward = [0, 0],
                  mem_isOver = [False, False], curr_size = 0, curr_pos = 0,
                  hist = [], hist_maxlen = 1 \<rparr>"
    using a(1) by (simp add: ReplayMemory_init_def zeros_def numeral_2_eq_2)
  have "(case appends float32_int m0 ?es of Inr r \<Rightarrow> hist r | Inl _ \<Rightarrow> []) = [scen_exp 4]"
    unfolding m0 by code_simp
  with a(2) have hm: "hist m = [scen_exp 4]" by simp
  from b[rule_format, OF sh(2)] obtain m' where
    "append_exp float32_int m (scen_exp 5) = Inr m'" "hist m' = tl (hist m @ [scen_exp 5])"
    by (auto simp: hm scen_exp_def)
  with a hm show ?thesis by auto
qed

section \<open>Sampling\<close>

lemma py_slice_window:
  assumes "idx + k \<le> length arr" "length arr = C"
  shows "py_slice arr idx (idx + k) = map (\<lambda>j. arr ! ((idx + j) mod C)) [0..<k]"
proof (rule nth_equalityI)
  show "length (py_slice arr idx (idx + k)) = length (map (\<lambda>j. arr ! ((idx + j) mod C)) [0..<k])"
    using assms by (simp add: py_slice_def)
next
  fix j assume "j < length (py_slice arr idx (idx + k))"
  then have j: "j < k" using assms by (simp add: py_slice_def)
  then have "idx + j < C" using assms by simp
  then show "py_slice arr idx (idx + k) ! j = map (\<lambda>j. arr ! ((idx + j) mod C)) [0..<k] ! j"
    using j assms by (simp add: py_slice_def)
qed

lemma slice_arr_window:
  assumes "length arr = C" "idx < C" "C < idx + k" "idx + k \<le> 2 * C"
  shows "slice_arr arr idx (idx + k - C) = map (\<lambda>j. arr ! ((idx + j) mod C)) [0..<k]"
proof (rule nth_equalityI)
  show "length (slice_arr arr idx (idx + k - C)) = length (map (\<lambda>j. arr ! ((idx + j) mod C)) [0..<k])"
    using assms by (simp add: slice_arr_def)
next
  fix j assume "j < length (slice_arr arr idx (idx + k - C))"
  then have j: "j < k" using assms by (simp add: slice_arr_def)
  show "slice_arr arr idx (idx + k - C) ! j = map (\<lambda>j. arr ! ((idx + j) mod C)) [0..<k] ! j"
  proof (cases "idx + j < C")
    case True
    then have "j < C - idx" by arith
    then show ?thesis using True assms by (simp add: slice_arr_def nth_append j)
  next
    case False
    then have ge: "C \<le> idx + j" by simp
    have lt: "idx + j - C < C" using j assms by arith
    have md: "(idx + j) mod C = idx + j - C"
      using ge lt by (simp add: le_mod_geq)
    have nl: "\<not> j < length (drop idx arr)" using assms ge by simp
    have eq: "j - length (drop idx arr) = idx + j - C" using assms ge by simp
    have lt2: "idx + j - C < idx + k - C" using j ge by arith
    have "slice_arr arr idx (idx + k - C) ! j = take (idx + k - C) arr ! (idx + j - C)"
      unfolding slice_arr_def nth_append using nl eq by simp
    also have "\<dots> = arr ! (idx + j - C)" using lt2 by simp
    finally show ?thesis using j md by simp
  qed
qed

lemma pad_loop_total:
  assumes "\<forall>k\<in>set ks. k < length w"
  shows "\<exists>st'. pad_loop m st w ks = Inr (st', m)"
  using assms by (induction ks) (auto simp: fill_prefix_def deepcopy_def)

lemma pad_loop_mem:
  "pad_loop m st w ks = Inr (st', m') \<Longrightarrow> m' = m"
  by (induction ks) (auto simp: fill_prefix_def deepcopy_def split: if_splits)

lemma pad_loop_none:
  assumes "n \<le> length w" "\<forall>j<n. \<not> w ! j"
  shows "pad_loop m st w (rev [0..<n]) = Inr (st, m)"
  using assms by (induction n) auto

lemma pad_loop_some:
  assumes "n \<le> length w" "k < n" "w ! k" "\<forall>j. k < j \<and> j < n \<longrightarrow> \<not> w ! j"
  shows "pad_loop m st w (rev [0..<n]) = Inr (Owned (fill0 (read_arr m st) 0 (k + 1)), m)"
  using assms
proof (induction n)
  case 0
  then show ?case by simp
next
  case (Suc n)
  show ?case
  proof (cases "k = n")
    case True
    then show ?thesis using Suc.prems by (simp add: fill_prefix_def deepcopy_def)
  next
    case False
    then have "k < n" using Suc.prems by simp
    moreover have "\<not> w ! n" using Suc.prems False by auto
    ultimately show ?thesis using Suc by simp
  qed
qed

lemma stack_frame_frames_last:
  assumes "j < length fs" "length (fs ! j) = p"
  shows "stack_frame (frames_last fs p) j = fs ! j"
proof -
  have "stack_frame (frames_last fs p) j = map (\<lambda>i. fs ! j ! i) [0..<p]"
    using assms(1) by (simp add: stack_frame_def frames_last_def comp_def)
  also have "\<dots> = fs ! j" using assms(2) map_nth[of "fs ! j"] by simp
  finally show ?thesis .
qed

lemma frames_last_length: "\<forall>px\<in>set (frames_last fs p). length px = length fs"
  by (simp add: frames_last_def)

lemma fill0_nth:
  "j < length fs \<Longrightarrow>
     fill0 fs lo hi ! j = (if lo \<le> j \<and> j < hi then map (\<lambda>_. 0) (fs ! j) else fs ! j)"
  by (simp add: fill0_def)

lemma fill0_length: "length (fill0 fs lo hi) = length fs"
  by (simp add: fill0_def)

lemma zero_fill_zeros: "length f = prod_list shape \<Longrightarrow> map (\<lambda>_. 0) f = zeros shape"
  by (simp add: zeros_def map_replicate_const)

lemma pad_sample_mem:
  assumes "pad_sample m st wr wa wo = Inr (r, m')"
  shows "m' = m"
proof -
  from assms obtain st' m1 where
    l: "pad_loop m st wo (rev [0..<history_len m - 1]) = Inr (st', m1)" and "m' = m1"
    by (auto simp: pad_sample_def split: sum.splits if_splits)
  with pad_loop_mem[OF l] show ?thesis by simp
qed

lemma sample_mem:
  assumes "sample m idx0 = Inr (r, m')"
  shows "m' = m"
  using assms by (auto simp: sample_def Let_def split: if_splits dest: pad_sample_mem)

lemma second_last_window:
  "2 \<le> length w \<Longrightarrow> second_last w = Inr (w ! (length w - 2))"
  by (simp add: second_last_def)

lemma pad_sample_total:
  assumes dims: "length (state_shape m) = 2 \<or> length (state_shape m) = 3"
    and len: "history_len m - 1 \<le> length wo" "2 \<le> length wr" "2 \<le> length wa" "2 \<le> length wo"
  shows "\<exists>r. pad_sample m st wr wa wo = Inr (r, m)"
proof -
  have "\<forall>k\<in>set (rev [0..<history_len m - 1]). k < length wo" using len(1) by auto
  from pad_loop_total[OF this] obtain st' where
    "pad_loop m st wo (rev [0..<history_len m - 1]) = Inr (st', m)" by blast
  then show ?thesis
    unfolding pad_sample_def using dims len(2,3,4) by (auto simp: second_last_window)
qed

lemma pad_sample_none:
  assumes dims: "length (state_shape m) = 2 \<or> length (state_shape m) = 3"
    and len: "history_len m - 1 \<le> length wo" "2 \<le> length wr" "2 \<le> length wa" "2 \<le> length wo"
    and none: "\<forall>j<history_len m - 1. \<not> wo ! j"
  shows "pad_sample m st wr wa wo =
           Inr ((frames_last (read_arr m st) (prod_list (state_shape m)),
                 wr ! (length wr - 2), wa ! (length wa - 2), wo ! (length wo - 2)), m)"
proof -
  have l: "pad_loop m st wo (rev [0..<history_len m - 1]) = Inr (st, m)"
    by (rule pad_loop_none[OF len(1) none])
  show ?thesis
    unfolding pad_sample_def l using dims len(2,3,4) by (auto simp: second_last_window)
qed

lemma pad_sample_some:
  assumes dims: "length (state_shape m) = 2 \<or> length (state_shape m) = 3"
    and len: "history_len m - 1 \<le> length wo" "2 \<le> length wr" "2 \<le> length wa" "2 \<le> length wo"
    and k: "k < history_len m - 1" "wo ! k" "\<forall>j. k < j \<and> j < history_len m - 1 \<longrightarrow> \<not> wo ! j"
  shows "pad_sample m st wr wa wo =
           Inr ((frames_last (fill0 (read_arr m st) 0 (k + 1)) (prod_list (state_shape m)),
                 wr ! (length wr - 2), wa ! (length wa - 2), wo ! (length wo - 2)), m)"
proof -
  have l: "pad_loop m st wo (rev [0..<history_len m - 1]) =
             Inr (Owned (fill0 (read_arr m st) 0 (k + 1)), m)"
    by (rule pad_loop_some[OF len(1) k])
  have r: "read_arr m (Owned fs) = fs" for fs
    by (simp add: read_arr_def)
  show ?thesis
    unfolding pad_sample_def l using dims len(2,3,4) by (auto simp: second_last_window r)
qed

lemma phys_less: "0 < curr_size m \<Longrightarrow> phys m idx0 < curr_size m"
  by (simp add: phys_def nat_less_iff)

lemma sample_window:
  assumes inv: "mem_inv m" and ok: "window_ok m idx0"
  shows "\<exists>st. sample m idx0 =
           pad_sample m st
             (map (\<lambda>j. mem_reward m ! ((phys m idx0 + j) mod max_size m)) [0..<history_len m + 1])
             (map (\<lambda>j. mem_action m ! ((phys m idx0 + j) mod max_size m)) [0..<history_len m + 1])
             (map (\<lambda>j. mem_isOver m ! ((phys m idx0 + j) mod max_size m)) [0..<history_len m + 1]) \<and>
           read_arr m st =
             map (\<lambda>j. mem_state m ! ((phys m idx0 + j) mod max_size m)) [0..<history_len m + 1]"
proof -
  let ?idx = "phys m idx0" and ?k = "history_len m + 1" and ?C = "max_size m"
  from ok have pos: "0 < curr_size m" by (simp add: window_ok_def)
  from inv have ls: "length (mem_state m) = ?C" "length (mem_reward m) = ?C"
    "length (mem_action m) = ?C" "length (mem_isOver m) = ?C" and sz: "curr_size m \<le> ?C"
    by (simp_all add: mem_inv_def)
  show ?thesis
  proof (cases "?idx + ?k \<le> curr_size m")
    case True
    then have le: "?idx + ?k \<le> ?C" using sz by simp
    have "sample m idx0 =
            pad_sample m (View ?idx (?idx + ?k)) (py_slice (mem_reward m) ?idx (?idx + ?k))
              (py_slice (mem_action m) ?idx (?idx + ?k)) (py_slice (mem_isOver m) ?idx (?idx + ?k))"
      using pos True by (simp add: sample_def Let_def)
    moreover have "read_arr m (View ?idx (?idx + ?k)) = py_slice (mem_state m) ?idx (?idx + ?k)"
      by (simp add: read_arr_def)
    ultimately show ?thesis
      using le ls by (metis py_slice_window)
  next
    case False
    with ok have full: "curr_size m = ?C" and two: "?idx + ?k \<le> 2 * ?C"
      by (simp_all add: window_ok_def)
    from False full have gt: "?C < ?idx + ?k" by simp
    from phys_less[OF pos] full have lt: "?idx < ?C" by simp
    have "sample m idx0 =
            pad_sample m (Owned (slice_arr (mem_state m) ?idx (?idx + ?k - ?C)))
              (slice_arr (mem_reward m) ?idx (?idx + ?k - ?C))
              (slice_arr (mem_action m) ?idx (?idx + ?k - ?C))
              (slice_arr (mem_isOver m) ?idx (?idx + ?k - ?C))"
      using pos False full by (simp add: sample_def Let_def)
    moreover have "read_arr m (Owned (slice_arr (mem_state m) ?idx (?idx + ?k - ?C)))
                     = slice_arr (mem_state m) ?idx (?idx + ?k - ?C)"
      by (simp add: read_arr_def)
    ultimately show ?thesis
      using ls lt gt two by (metis slice_arr_window)
  qed
qed

lemma ex_latest:
  fixes P :: "nat \<Rightarrow> bool"
  assumes "k < n" "P k"
  shows "\<exists>k'<n. P k' \<and> (\<forall>j. k' < j \<and> j < n \<longrightarrow> \<not> P j)"
  using assms
proof (induction n)
  case 0
  then show ?case by simp
next
  case (Suc n)
  show ?case
  proof (cases "P n")
    case True
    then show ?thesis by (intro exI[of _ n]) auto
  next
    case False
    with Suc.prems have "k < n" by (cases "k = n") auto
    from Suc.IH[OF this Suc.prems(2)] obtain k' where
      "k' < n" "P k'" "\<forall>j. k' < j \<and> j < n \<longrightarrow> \<not> P j" by blast
    with False show ?thesis
      by (intro exI[of _ k']) (auto simp: less_Suc_eq)
  qed
qed

lemma mem_inv_frame:
  "mem_inv m \<Longrightarrow> i < max_size m \<Longrightarrow> length (mem_state m ! i) = prod_list (state_shape m)"
  by (simp add: mem_inv_def list_all_length)

lemma sample_complete:
  assumes inv: "mem_inv m" and ok: "window_ok m idx0"
    and dims: "length (state_shape m) = 2 \<or> length (state_shape m) = 3"
  shows "\<exists>fs. sample m idx0 =
           Inr ((frames_last fs (prod_list (state_shape m)),
                 mem_reward m ! ((phys m idx0 + history_len m - 1) mod max_size m),
                 mem_action m ! ((phys m idx0 + history_len m - 1) mod max_size m),
                 mem_isOver m ! ((phys m idx0 + history_len m - 1) mod max_size m)), m) \<and>
           length fs = history_len m + 1 \<and>
           (\<forall>j<history_len m + 1. length (fs ! j) = prod_list (state_shape m)) \<and>
           ((\<forall>j<history_len m - 1. \<not> mem_isOver m ! ((phys m idx0 + j) mod max_size m)) \<longrightarrow>
              (\<forall>j<history_len m + 1. fs ! j = mem_state m ! ((phys m idx0 + j) mod max_size m))) \<and>
           (\<forall>k<history_len m - 1.
              mem_isOver m ! ((phys m idx0 + k) mod max_size m) \<and>
              (\<forall>j. k < j \<and> j < history_len m - 1 \<longrightarrow>
                   \<not> mem_isOver m ! ((phys m idx0 + j) mod max_size m)) \<longrightarrow>
              (\<forall>j<history_len m + 1.
                 fs ! j = (if j \<le> k then zeros (state_shape m)
                           else mem_state m ! ((phys m idx0 + j) mod max_size m))))"
proof -
  let ?h = "history_len m" and ?C = "max_size m" and ?idx = "phys m idx0"
  let ?P = "prod_list (state_shape m)"
  define ws where "ws = map (\<lambda>j. mem_state m ! ((?idx + j) mod ?C)) [0..<?h + 1]"
  define wr where "wr = map (\<lambda>j. mem_reward m ! ((?idx + j) mod ?C)) [0..<?h + 1]"
  define wa where "wa = map (\<lambda>j. mem_action m ! ((?idx + j) mod ?C)) [0..<?h + 1]"
  define wo where "wo = map (\<lambda>j. mem_isOver m ! ((?idx + j) mod ?C)) [0..<?h + 1]"
  from inv have h: "0 < ?h" and C: "0 < ?C" by (simp_all add: mem_inv_def)
  have len: "length ws = ?h + 1" "length wr = ?h + 1" "length wa = ?h + 1" "length wo = ?h + 1"
    by (simp_all add: ws_def wr_def wa_def wo_def)
  have nth: "ws ! j = mem_state m ! ((?idx + j) mod ?C)" "wr ! j = mem_reward m ! ((?idx + j) mod ?C)"
    "wa ! j = mem_action m ! ((?idx + j) mod ?C)" "wo ! j = mem_isOver m ! ((?idx + j) mod ?C)"
    if "j < ?h + 1" for j
    using that unfolding ws_def wr_def wa_def wo_def by (simp_all del: upt_Suc)
  have nth_o: "wo ! j = mem_isOver m ! ((?idx + j) mod ?C)" if "j < ?h - 1" for j
  proof -
    from that have "j < ?h + 1" by arith
    then show ?thesis by (rule nth(4))
  qed
  have fl: "length (ws ! j) = ?P" if "j < ?h + 1" for j
    using nth(1)[OF that] mem_inv_frame[OF inv, of "(?idx + j) mod ?C"] C by simp
  from sample_window[OF inv ok] obtain st where
    s: "sample m idx0 = pad_sample m st wr wa wo" and r: "read_arr m st = ws"
    unfolding ws_def wr_def wa_def wo_def by blast
  have lens: "?h - 1 \<le> length wo" "2 \<le> length wr" "2 \<le> length wa" "2 \<le> length wo"
    using h len by simp_all
  have sl: "wr ! (length wr - 2) = mem_reward m ! ((?idx + ?h - 1) mod ?C)"
    "wa ! (length wa - 2) = mem_action m ! ((?idx + ?h - 1) mod ?C)"
    "wo ! (length wo - 2) = mem_isOver m ! ((?idx + ?h - 1) mod ?C)"
    using nth(2,3,4)[of "?h - 1"] h len by simp_all
  show ?thesis
  proof (cases "\<exists>k<?h - 1. wo ! k")
    case False
    then have none: "\<forall>j<?h - 1. \<not> wo ! j" by simp
    have none': "\<not> mem_isOver m ! ((?idx + k) mod ?C)" if "k < ?h - 1" for k
      using none that nth_o[of k] by simp
    have "sample m idx0 = Inr ((frames_last ws ?P, mem_reward m ! ((?idx + ?h - 1) mod ?C),
             mem_action m ! ((?idx + ?h - 1) mod ?C),
             mem_isOver m ! ((?idx + ?h - 1) mod ?C)), m)"
      unfolding s pad_sample_none[OF dims lens none] r sl ..
    then show ?thesis
      using len(1) fl nth(1) none' by (intro exI[of _ ws]) auto
  next
    case True
    then obtain k0 where "k0 < ?h - 1" "wo ! k0" by blast
    from ex_latest[of k0 "?h - 1" "\<lambda>j. wo ! j", OF this] obtain k where
      k: "k < ?h - 1" "wo ! k" "\<forall>j. k < j \<and> j < ?h - 1 \<longrightarrow> \<not> wo ! j" by blast
    let ?fs = "fill0 ws 0 (k + 1)"
    have smp: "sample m idx0 = Inr ((frames_last ?fs ?P, mem_reward m ! ((?idx + ?h - 1) mod ?C),
             mem_action m ! ((?idx + ?h - 1) mod ?C),
             mem_isOver m ! ((?idx + ?h - 1) mod ?C)), m)"
      unfolding s pad_sample_some[OF dims lens k] r sl ..
    have fs_nth: "?fs ! j = (if j \<le> k then zeros (state_shape m)
                             else mem_state m ! ((?idx + j) mod ?C))" if "j < ?h + 1" for j
      using that len(1) fl[OF that] nth(1)[OF that]
      by (auto simp: fill0_nth zero_fill_zeros)
    have fs_len: "length (?fs ! j) = ?P" if "j < ?h + 1" for j
      using fs_nth[OF that] fl[OF that] nth(1)[OF that] by (simp add: zeros_def)
    have uniq: "k' = k"
      if "k' < ?h - 1" "mem_isOver m ! ((?idx + k') mod ?C)"
         "\<forall>j. k' < j \<and> j < ?h - 1 \<longrightarrow> \<not> mem_isOver m ! ((?idx + j) mod ?C)" for k'
    proof (rule ccontr)
      assume "k' \<noteq> k"
      then consider "k' < k" | "k < k'" by arith
      then show False
      proof cases
        case 1
        with that(3) k(1) have "\<not> mem_isOver m ! ((?idx + k) mod ?C)" by simp
        with k(1,2) nth_o[of k] show False by simp
      next
        case 2
        with k(3) that(1) have "\<not> wo ! k'" by simp
        with that(1,2) nth_o[of k'] show False by simp
      qed
    qed
    have some: "\<exists>k<?h - 1. mem_isOver m ! ((?idx + k) mod ?C)"
      using k(1,2) nth_o[of k] by auto
    show ?thesis
      apply (intro exI[of _ ?fs] conjI)
          apply (rule smp)
         apply (simp add: fill0_length len)
        using fs_len apply blast
       using some apply blast
      using uniq fs_nth apply blast
      done
  qed
qed

lemma scen_init: "ReplayMemory_init 5 [1, 1] 2 = Inr (scen_mem 0)"
  by code_simp

lemma scen_appends:
  "appends float32_int (scen_mem 0) [scen_exp 1] = Inr (scen_mem 1)"
  "appends float32_int (scen_mem 0) [scen_exp 1, scen_exp 2] = Inr (scen_mem 2)"
  "appends float32_int (scen_mem 0) [scen_exp 1, scen_exp 2, scen_exp 3] = Inr (scen_mem 3)"
  "appends float32_int (scen_mem 0) [scen_exp 1, scen_exp 2, scen_exp 3, scen_exp 4, scen_exp 5]
     = Inr (scen_mem 5)"
  by code_simp+

lemma scen_mem_inv: "mem_inv (scen_mem 1)" "mem_inv (scen_mem 2)" "mem_inv (scen_mem 3)" "mem_inv (scen_mem 5)"
  by code_simp+

text \<open>
  Claim C2. Let the window of \<open>sample m idx0\<close> be complete. The call returns. If no
  transition at the window positions \<open>0, ..., history_len - 2\<close> is terminal, every frame of
  the returned stacked state is the stored frame of its slot. If some position in that
  range is terminal and \<open>k\<close> is the latest such position, the frames at the positions
  \<open>j \<le> k\<close> are zero frames and every later frame is the stored frame of its slot.
\<close>

theorem sample_zero_fill:
  assumes "mem_inv m" and "window_ok m idx0"
    and "length (state_shape m) = 2 \<or> length (state_shape m) = 3"
  shows "\<exists>st r a t. sample m idx0 = Inr ((st, r, a, t), m) \<and>
           ((\<forall>j<history_len m - 1. \<not> mem_isOver m ! ((phys m idx0 + j) mod max_size m)) \<longrightarrow>
              (\<forall>j<history_len m + 1.
                 stack_frame st j = mem_state m ! ((phys m idx0 + j) mod max_size m))) \<and>
           (\<forall>k<history_len m - 1.
              mem_isOver m ! ((phys m idx0 + k) mod max_size m) \<and>
              (\<forall>j. k < j \<and> j < history_len m - 1 \<longrightarrow>
                   \<not> mem_isOver m ! ((phys m idx0 + j) mod max_size m)) \<longrightarrow>
              (\<forall>j<history_len m + 1.
                 stack_frame st j = (if j \<le> k then zeros (state_shape m)
                                     else mem_state m ! ((phys m idx0 + j) mod max_size m))))"
proof -
  from sample_complete[OF assms] obtain fs where
    s: "sample m idx0 =
           Inr ((frames_last fs (prod_list (state_shape m)),
                 mem_reward m ! ((phys m idx0 + history_len m - 1) mod max_size m),
                 mem_action m ! ((phys m idx0 + history_len m - 1) mod max_size m),
                 mem_isOver m ! ((phys m idx0 + history_len m - 1) mod max_size m)), m)" and
    l: "length fs = history_len m + 1" and
    fl: "\<forall>j<history_len m + 1. length (fs ! j) = prod_list (state_shape m)" and
    none: "(\<forall>j<history_len m - 1. \<not> mem_isOver m ! ((phys m idx0 + j) mod max_size m)) \<longrightarrow>
              (\<forall>j<history_len m + 1. fs ! j = mem_state m ! ((phys m idx0 + j) mod max_size m))" and
    some: "\<forall>k<history_len m - 1.
              mem_isOver m ! ((phys m idx0 + k) mod max_size m) \<and>
              (\<forall>j. k < j \<and> j < history_len m - 1 \<longrightarrow>
                   \<not> mem_isOver m ! ((phys m idx0 + j) mod max_size m)) \<longrightarrow>
              (\<forall>j<history_len m + 1.
                 fs ! j = (if j \<le> k then zeros (state_shape m)
                           else mem_state m ! ((phys m idx0 + j) mod max_size m)))"
    by blast
  have sf: "stack_frame (frames_last fs (prod_list (state_shape m))) j = fs ! j"
    if "j < history_len m + 1" for j
    using that l fl by (intro stack_frame_frames_last) auto
  show ?thesis
    apply (intro exI conjI)
      apply (rule s)
    using none sf apply simp
    using some sf apply simp
    done
qed

lemma scen_fields:
  "max_size (scen_mem n) = 5" "history_len (scen_mem n) = 2" "state_shape (scen_mem n) = [1, 1]"
  "curr_size (scen_mem n) = n" "curr_pos (scen_mem n) = n mod 5"
  by (simp_all add: scen_mem_def)

lemma scen_arrays:
  "mem_state (scen_mem 5) = [[1], [2], [3], [4], [5]]"
  "mem_isOver (scen_mem 5) = [False, False, True, False, False]"
  by (simp_all add: scen_mem_def)

theorem sample_zero_fill_witness:
  "\<exists>st r a t. sample (scen_mem 5) 2 = Inr ((st, r, a, t), scen_mem 5) \<and>
     stack_frame st 0 = [0] \<and> stack_frame st 1 = [4] \<and> stack_frame st 2 = [5]"
proof -
  have inv: "mem_inv (scen_mem 5)" by (rule scen_mem_inv)
  have ph: "phys (scen_mem 5) 2 = 2" by (simp add: phys_def scen_fields)
  have ok: "window_ok (scen_mem 5) 2" by (simp add: window_ok_def ph scen_fields)
  have dims: "length (state_shape (scen_mem 5)) = 2 \<or> length (state_shape (scen_mem 5)) = 3"
    by (simp add: scen_fields)
  from sample_zero_fill[OF inv ok dims] obtain st r a t where
    s: "sample (scen_mem 5) 2 = Inr ((st, r, a, t), scen_mem 5)" and
    z: "\<forall>k<history_len (scen_mem 5) - 1.
          mem_isOver (scen_mem 5) ! ((phys (scen_mem 5) 2 + k) mod max_size (scen_mem 5)) \<and>
          (\<forall>j. k < j \<and> j < history_len (scen_mem 5) - 1 \<longrightarrow>
               \<not> mem_isOver (scen_mem 5) ! ((phys (scen_mem 5) 2 + j) mod max_size (scen_mem 5))) \<longrightarrow>
          (\<forall>j<history_len (scen_mem 5) + 1.
             stack_frame st j =
               (if j \<le> k then zeros (state_shape (scen_mem 5))
                else mem_state (scen_mem 5) ! ((phys (scen_mem 5) 2 + j) mod max_size (scen_mem 5))))"
    by blast
  have p1: "0 < history_len (scen_mem 5) - 1" by (simp add: scen_fields)
  have p2: "mem_isOver (scen_mem 5) ! ((phys (scen_mem 5) 2 + 0) mod max_size (scen_mem 5)) \<and>
          (\<forall>j. 0 < j \<and> j < history_len (scen_mem 5) - 1 \<longrightarrow>
               \<not> mem_isOver (scen_mem 5) ! ((phys (scen_mem 5) 2 + j) mod max_size (scen_mem 5)))"
    by (auto simp: ph scen_fields scen_arrays)
  note fr = z[rule_format, OF p1 p2]
  have "stack_frame st 0 = [0]" "stack_frame st 1 = [4]" "stack_frame st 2 = [5]"
    using fr[of 0] fr[of 1] fr[of 2] by (simp_all add: ph scen_fields scen_arrays zeros_def)
  with s show ?thesis by blast
qed

text \<open>
  Claim C4, amended. Let the memory satisfy the invariant (as it does after
  \<^verbatim>\<open>__init__\<close> with a positive capacity and history length and any run of appends),
  and let its frames have two or three dimensions, the ranks that the transposition of
  \<^verbatim>\<open>_pad_sample\<close> accepts. For every index whose window is complete (the window lies
  below the fill count, or the memory is full and the window wraps at most once),
  \<open>sample\<close> reads \<open>history_len + 1\<close> consecutive transitions from the physical index
  \<open>(curr_pos + idx0) mod curr_size\<close> on, modulo the capacity: the stacked state has
  \<open>history_len + 1\<close> frames, each the stored frame of its slot or a zero frame, the last
  two always the stored ones, and the reward, the action and the terminal flag returned
  are those of the second-to-last slot of the window. As stated for every index below
  the fill count the claim fails: in a memory that is not full, a window that passes the
  fill count is read up to the end of the arrays, and the values returned are those of
  the last slot of the arrays.
\<close>

theorem sample_reads_complete_window:
  assumes "mem_inv m" and "window_ok m idx0"
    and "length (state_shape m) = 2 \<or> length (state_shape m) = 3"
  shows "\<exists>st. sample m idx0 =
           Inr ((st,
                 reward (slot m ((phys m idx0 + history_len m - 1) mod max_size m)),
                 action (slot m ((phys m idx0 + history_len m - 1) mod max_size m)),
                 isOver (slot m ((phys m idx0 + history_len m - 1) mod max_size m))), m) \<and>
           int (phys m idx0) = (int (curr_pos m) + idx0) mod int (curr_size m) \<and>
           list_all (\<lambda>px. length px = history_len m + 1) st \<and>
           (\<forall>j<history_len m + 1.
              stack_frame st j = arr_data (state (slot m ((phys m idx0 + j) mod max_size m))) \<or>
              stack_frame st j = zeros (state_shape m)) \<and>
           (\<forall>j<history_len m + 1. history_len m - 1 \<le> j \<longrightarrow>
              stack_frame st j = arr_data (state (slot m ((phys m idx0 + j) mod max_size m))))"
proof -
  let ?h = "history_len m" and ?C = "max_size m" and ?idx = "phys m idx0"
  let ?O = "\<lambda>j. mem_isOver m ! ((?idx + j) mod ?C)"
  let ?S = "\<lambda>j. mem_state m ! ((?idx + j) mod ?C)"
  from sample_complete[OF assms] obtain fs where
    s: "sample m idx0 =
           Inr ((frames_last fs (prod_list (state_shape m)),
                 mem_reward m ! ((?idx + ?h - 1) mod ?C),
                 mem_action m ! ((?idx + ?h - 1) mod ?C),
                 mem_isOver m ! ((?idx + ?h - 1) mod ?C)), m)" and
    l: "length fs = ?h + 1" and
    fl: "\<forall>j<?h + 1. length (fs ! j) = prod_list (state_shape m)" and
    none: "(\<forall>j<?h - 1. \<not> ?O j) \<longrightarrow> (\<forall>j<?h + 1. fs ! j = ?S j)" and
    some: "\<forall>k<?h - 1. ?O k \<and> (\<forall>j. k < j \<and> j < ?h - 1 \<longrightarrow> \<not> ?O j) \<longrightarrow>
              (\<forall>j<?h + 1. fs ! j = (if j \<le> k then zeros (state_shape m) else ?S j))"
    by blast
  let ?st = "frames_last fs (prod_list (state_shape m))"
  have sf: "stack_frame ?st j = fs ! j" if "j < ?h + 1" for j
    using that l fl by (intro stack_frame_frames_last) auto
  have ph: "int ?idx = (int (curr_pos m) + idx0) mod int (curr_size m)"
    using assms(2) by (simp add: phys_def window_ok_def)
  have px: "list_all (\<lambda>px. length px = ?h + 1) ?st"
    using frames_last_length[of fs] l by (simp add: list_all_iff)
  have frames: "(fs ! j = ?S j \<or> fs ! j = zeros (state_shape m)) \<and> (?h - 1 \<le> j \<longrightarrow> fs ! j = ?S j)"
    if j: "j < ?h + 1" for j
  proof (cases "\<exists>k<?h - 1. ?O k")
    case False
    with none j show ?thesis by simp
  next
    case True
    then obtain k0 where "k0 < ?h - 1" "?O k0" by blast
    from ex_latest[of k0 "?h - 1" ?O, OF this] obtain k where
      k: "k < ?h - 1" "?O k" "\<forall>j. k < j \<and> j < ?h - 1 \<longrightarrow> \<not> ?O j" by blast
    with some j have "fs ! j = (if j \<le> k then zeros (state_shape m) else ?S j)" by simp
    with k(1) show ?thesis by auto
  qed
  show ?thesis
    apply (intro exI[of _ ?st] conjI)
        apply (simp add: s slot_def)
       apply (rule ph)
      apply (rule px)
    using frames sf apply (simp add: slot_def)
    using frames sf apply (simp add: slot_def)
    done
qed

theorem sample_reads_complete_window_witness:
  "\<exists>st. sample (scen_mem 5) 4 = Inr ((st, 1, 1, False), scen_mem 5) \<and>
     list_all (\<lambda>px. length px = 3) st \<and>
     stack_frame st 1 = [1] \<and> stack_frame st 2 = [2]"
proof -
  have inv: "mem_inv (scen_mem 5)" by (rule scen_mem_inv)
  have ph: "phys (scen_mem 5) 4 = 4" by (simp add: phys_def scen_fields)
  have ok: "window_ok (scen_mem 5) 4" by (simp add: window_ok_def ph scen_fields)
  have dims: "length (state_shape (scen_mem 5)) = 2 \<or> length (state_shape (scen_mem 5)) = 3"
    by (simp add: scen_fields)
  have sl: "slot (scen_mem 5) 0 = \<lparr>state = \<lparr>arr_shape = [1, 1], arr_data = [1]\<rparr>,
                                     action = 1, reward = 1, isOver = False\<rparr>"
    "slot (scen_mem 5) (Suc 0) = \<lparr>state = \<lparr>arr_shape = [1, 1], arr_data = [2]\<rparr>,
                                   action = 2, reward = 2, isOver = False\<rparr>"
    by (simp_all add: slot_def scen_mem_def)
  from sample_reads_complete_window[OF inv ok dims] obtain st where
    s: "sample (scen_mem 5) 4 = Inr ((st,
          reward (slot (scen_mem 5) ((phys (scen_mem 5) 4 + history_len (scen_mem 5) - 1)
             mod max_size (scen_mem 5))),
          action (slot (scen_mem 5) ((phys (scen_mem 5) 4 + history_len (scen_mem 5) - 1)
             mod max_size (scen_mem 5))),
          isOver (slot (scen_mem 5) ((phys (scen_mem 5) 4 + history_len (scen_mem 5) - 1)
             mod max_size (scen_mem 5)))), scen_mem 5)" and
    px: "list_all (\<lambda>px. length px = history_len (scen_mem 5) + 1) st" and
    fr: "\<forall>j<history_len (scen_mem 5) + 1. history_len (scen_mem 5) - 1 \<le> j \<longrightarrow>
           stack_frame st j =
             arr_data (state (slot (scen_mem 5)
               ((phys (scen_mem 5) 4 + j) mod max_size (scen_mem 5))))"
    by blast
  have "sample (scen_mem 5) 4 = Inr ((st, 1, 1, False), scen_mem 5)"
    using s by (simp add: ph scen_fields sl)
  moreover have "list_all (\<lambda>px. length px = 3) st"
    using px by (simp add: scen_fields)
  moreover have "stack_frame st 1 = [1]" "stack_frame st 2 = [2]"
    using fr[rule_format, of 1] fr[rule_format, of 2] by (simp_all add: ph scen_fields sl)
  ultimately show ?thesis by blast
qed

theorem sample_reads_complete_window_counterexample:
  "ReplayMemory_init 5 [1, 1] 2 = Inr (scen_mem 0) \<and>
   appends float32_int (scen_mem 0) [scen_exp 1, scen_exp 2, scen_exp 3] = Inr (scen_mem 3) \<and>
   sample (scen_mem 3) 1 = Inr (([[2, 3, 0, 0, 1]], 0, 0, False), scen_mem 3) \<and>
   \<not> (\<exists>st. sample (scen_mem 3) 1 =
           Inr ((st,
                 reward (slot (scen_mem 3)
                   ((phys (scen_mem 3) 1 + history_len (scen_mem 3) - 1) mod max_size (scen_mem 3))),
                 action (slot (scen_mem 3)
                   ((phys (scen_mem 3) 1 + history_len (scen_mem 3) - 1) mod max_size (scen_mem 3))),
                 isOver (slot (scen_mem 3)
                   ((phys (scen_mem 3) 1 + history_len (scen_mem 3) - 1) mod max_size (scen_mem 3)))),
                scen_mem 3))"
proof -
  have s: "sample (scen_mem 3) 1 = Inr (([[2, 3, 0, 0, 1]], 0, 0, False), scen_mem 3)"
    by code_simp
  have ph: "phys (scen_mem 3) 1 = 1" by (simp add: phys_def scen_fields)
  have sl: "slot (scen_mem 3) 2 = \<lparr>state = \<lparr>arr_shape = [1, 1], arr_data = [3]\<rparr>,
                                     action = 3, reward = 3, isOver = True\<rparr>"
    by (simp add: slot_def scen_mem_def)
  have p: "(phys (scen_mem 3) 1 + history_len (scen_mem 3) - 1) mod max_size (scen_mem 3) = 2"
    by (simp add: ph scen_fields)
  show ?thesis
    unfolding s p sl scen_init scen_appends(3) by simp
qed

lemma second_last_index:
  fixes p C h :: nat
  assumes "p < C" "0 < h"
  shows "(nat ((int ((p + 1) mod C) + (int C - int h)) mod int C) + h - 1) mod C = p"
proof -
  let ?q = "nat ((int ((p + 1) mod C) + (int C - int h)) mod int C)"
  have C: "0 < int C" using assms(1) by simp
  have q: "int ?q = (int p + 1 - int h) mod int C"
  proof -
    have "int ?q = (int ((p + 1) mod C) + (int C - int h)) mod int C"
      using C by simp
    also have "\<dots> = ((int p + 1) mod int C + (int C - int h)) mod int C"
      by (simp add: zmod_int add.commute)
    also have "\<dots> = (int p + 1 + (int C - int h)) mod int C"
      by (simp add: mod_add_left_eq)
    also have "\<dots> = (int p + 1 - int h + int C) mod int C"
      by (simp add: algebra_simps)
    also have "\<dots> = (int p + 1 - int h) mod int C"
      by simp
    finally show ?thesis .
  qed
  have "int ((?q + h - 1) mod C) = (int ?q + (int h - 1)) mod int C"
    using assms(2) by (simp add: zmod_int of_nat_diff algebra_simps)
  also have "\<dots> = ((int p + 1 - int h) mod int C + (int h - 1)) mod int C"
    unfolding q ..
  also have "\<dots> = (int p + 1 - int h + (int h - 1)) mod int C"
    by (simp add: mod_add_left_eq)
  also have "\<dots> = int p mod int C" by simp
  also have "\<dots> = int p" using assms(1) by simp
  finally show ?thesis by simp
qed

text \<open>
  Claim C7, amended. Let the memory satisfy the invariant, with frames of two or three
  dimensions, let \<open>e\<close> be an experience whose state has the configured shape and whose
  action is an int32, let the memory be full once \<open>e\<close> is appended (it was full, or the
  append fills its last free slot), and let the history length be at most the capacity.
  Then appending \<open>e\<close> and sampling at the logical index \<open>len - history_len\<close>, where \<open>e\<close>
  is the second-to-last transition of the window, returns the action and the terminal
  flag of \<open>e\<close> and the reward of \<open>e\<close> converted to float32: the reward itself when it is
  a float32 value, its rounding otherwise. As stated for every append and every reward
  the claim fails. While the memory is filling, the window at that index passes the fill
  count, and \<open>sample\<close> returns the values of the last slot of the arrays, which no append
  has written; and in a full memory the reward 16777217 comes back as 16777216.
\<close>

theorem append_then_sample_when_full:
  assumes inv: "mem_inv m" and sh: "shaped (state_shape m) e"
    and dims: "length (state_shape m) = 2 \<or> length (state_shape m) = 3"
    and full: "max_size m \<le> curr_size m + 1"
    and hC: "history_len m \<le> max_size m"
  shows "\<exists>m' st. append_exp float32 m e = Inr m' \<and>
           sample m' (int (len m') - int (history_len m')) =
             Inr ((st, float32 (reward e), action e, isOver e), m')"
proof -
  from append_exp_step[OF inv sh, of float32] obtain m' where
    st: "append_exp float32 m e = Inr m'" and inv': "mem_inv m'" and
    par: "max_size m' = max_size m" "state_shape m' = state_shape m"
         "history_len m' = history_len m" and
    sz: "curr_size m' = min (curr_size m + 1) (max_size m)" and
    pos: "curr_pos m' = (curr_pos m + 1) mod max_size m" and
    new: "slot m' (curr_pos m) = stored float32 e"
    by metis
  let ?C = "max_size m" and ?h = "history_len m" and ?p = "curr_pos m"
  let ?i = "int (len m') - int (history_len m')"
  from inv have C: "0 < ?C" and h: "0 < ?h" and p: "?p < ?C" by (simp_all add: mem_inv_def)
  have sz': "curr_size m' = ?C" using sz full by simp
  have l: "len m' = ?C" by (simp add: len_def sz')
  have ph: "phys m' (int ?C - int ?h) = nat ((int ((?p + 1) mod ?C) + (int ?C - int ?h)) mod int ?C)"
    by (simp add: phys_def sz' pos)
  have lt: "phys m' ?i < ?C" using phys_less[of m' ?i] sz' C by simp
  have ok: "window_ok m' ?i"
    using lt hC C by (simp add: window_ok_def sz' par)
  have dims': "length (state_shape m') = 2 \<or> length (state_shape m') = 3"
    using dims par by simp
  have idx: "(phys m' ?i + history_len m' - 1) mod max_size m' = ?p"
    unfolding par l ph by (rule second_last_index[OF p h])
  from sample_complete[OF inv' ok dims'] obtain fs where
    "sample m' ?i =
       Inr ((frames_last fs (prod_list (state_shape m')),
             mem_reward m' ! ((phys m' ?i + history_len m' - 1) mod max_size m'),
             mem_action m' ! ((phys m' ?i + history_len m' - 1) mod max_size m'),
             mem_isOver m' ! ((phys m' ?i + history_len m' - 1) mod max_size m')), m')"
    by blast
  then have "sample m' ?i =
       Inr ((frames_last fs (prod_list (state_shape m')),
             reward (slot m' ?p), action (slot m' ?p), isOver (slot m' ?p)), m')"
    unfolding idx by (simp add: slot_def)
  with st new show ?thesis by (auto simp: stored_def)
qed

theorem append_then_sample_when_full_witness:
  "\<exists>m' st. append_exp float32_int (scen_mem 5) (scen_exp 6) = Inr m' \<and>
     sample m' (int (len m') - int (history_len m')) = Inr ((st, 6, 6, False), m')"
proof -
  have "mem_inv (scen_mem 5)" by (rule scen_mem_inv)
  moreover have "shaped (state_shape (scen_mem 5)) (scen_exp 6)"
    by (simp add: shaped_def scen_fields scen_exp_def int32_range_def)
  moreover have "length (state_shape (scen_mem 5)) = 2 \<or> length (state_shape (scen_mem 5)) = 3"
    by (simp add: scen_fields)
  moreover have "max_size (scen_mem 5) \<le> curr_size (scen_mem 5) + 1"
    "history_len (scen_mem 5) \<le> max_size (scen_mem 5)"
    by (simp_all add: scen_fields)
  ultimately have "\<exists>m' st. append_exp float32_int (scen_mem 5) (scen_exp 6) = Inr m' \<and>
           sample m' (int (len m') - int (history_len m')) =
             Inr ((st, float32_int (reward (scen_exp 6)), action (scen_exp 6),
                   isOver (scen_exp 6)), m')"
    by (rule append_then_sample_when_full)
  moreover have "float32_int (reward (scen_exp 6)) = 6" by code_simp
  ultimately show ?thesis by (simp add: scen_exp_def)
qed

theorem append_then_sample_counterexample:
  "ReplayMemory_init 5 [1, 1] 2 = Inr (scen_mem 0) \<and>
   appends float32_int (scen_mem 0) [scen_exp 1] = Inr (scen_mem 1) \<and>
   append_exp float32_int (scen_mem 1) (scen_exp 2) = Inr (scen_mem 2) \<and>
   sample (scen_mem 2) (int (len (scen_mem 2)) - int (history_len (scen_mem 2))) =
     Inr (([[1, 2, 0, 0, 0, 1]], 0, 0, False), scen_mem 2) \<and>
   \<not> (\<exists>m' st. append_exp float32_int (scen_mem 1) (scen_exp 2) = Inr m' \<and>
          sample m' (int (len m') - int (history_len m')) =
            Inr ((st, reward (scen_exp 2), action (scen_exp 2), isOver (scen_exp 2)), m')) \<and>
   appends float32_int (scen_mem 0) [scen_exp 1, scen_exp 2, scen_exp 3, scen_exp 4, scen_exp 5]
     = Inr (scen_mem 5) \<and>
   (case append_exp float32_int (scen_mem 5) ((scen_exp 6)\<lparr>reward := 16777217\<rparr>) of
      Inl x \<Rightarrow> None
    | Inr m' \<Rightarrow>
        (case sample m' (int (len m') - int (history_len m')) of
           Inl x \<Rightarrow> None
         | Inr ((st, r, a, t), m'') \<Rightarrow> Some (r, a, t))) = Some (16777216, 6, False)"
proof -
  have a: "append_exp float32_int (scen_mem 1) (scen_exp 2) = Inr (scen_mem 2)" by code_simp
  have i: "int (len (scen_mem 2)) - int (history_len (scen_mem 2)) = 0"
    by (simp add: len_def scen_fields)
  have s: "sample (scen_mem 2) 0 = Inr (([[1, 2, 0, 0, 0, 1]], 0, 0, False), scen_mem 2)"
    by code_simp
  have r: "(case append_exp float32_int (scen_mem 5) ((scen_exp 6)\<lparr>reward := 16777217\<rparr>) of
      Inl x \<Rightarrow> None
    | Inr m' \<Rightarrow>
        (case sample m' (int (len m') - int (history_len m')) of
           Inl x \<Rightarrow> None
         | Inr ((st, r, a, t), m'') \<Rightarrow> Some (r, a, t))) = Some (16777216, 6, False)"
    by code_simp
  show ?thesis
    unfolding a scen_init scen_appends(1) scen_appends(4) r
    by (simp add: i s scen_exp_def)
qed

lemma slice_arr_length:
  "length (slice_arr arr start end) = (length arr - start) + min end (length arr)"
  by (simp add: slice_arr_def min.commute)

lemma py_slice_length:
  "b \<le> length arr \<Longrightarrow> length (py_slice arr a b) = b - a"
  by (simp add: py_slice_def)

lemma window_read_length:
  assumes "length arr = max_size m" "curr_size m \<le> max_size m"
  shows "length (window_read m idx0 arr) =
           (if phys m idx0 + history_len m + 1 \<le> curr_size m then history_len m + 1
            else (max_size m - phys m idx0) +
                 min (phys m idx0 + history_len m + 1 - curr_size m) (max_size m))"
  using assms by (simp add: window_read_def Let_def py_slice_length slice_arr_length)

lemma window_read_set: "set (window_read m idx0 arr) \<subseteq> set arr"
proof -
  have "set (py_slice arr a b) \<subseteq> set arr" for a b
    unfolding py_slice_def by (meson in_set_dropD in_set_takeD subsetI)
  moreover have "set (slice_arr arr a b) \<subseteq> set arr" for a b
    unfolding slice_arr_def by (auto dest: in_set_dropD in_set_takeD)
  ultimately show ?thesis by (simp add: window_read_def Let_def)
qed

lemma sample_window_read:
  assumes "0 < curr_size m"
  shows "\<exists>st. sample m idx0 =
           pad_sample m st (window_read m idx0 (mem_reward m))
             (window_read m idx0 (mem_action m)) (window_read m idx0 (mem_isOver m)) \<and>
           read_arr m st = window_read m idx0 (mem_state m)"
proof (cases "phys m idx0 + (history_len m + 1) \<le> curr_size m")
  case True
  with assms show ?thesis
    by (intro exI[of _ "View (phys m idx0) (phys m idx0 + (history_len m + 1))"])
       (simp add: sample_def window_read_def Let_def read_arr_def)
next
  case False
  with assms show ?thesis
    by (intro exI[of _ "Owned (slice_arr (mem_state m) (phys m idx0)
            (phys m idx0 + (history_len m + 1) - curr_size m))"])
       (simp add: sample_def window_read_def Let_def read_arr_def)
qed

lemma sample_any_window:
  assumes inv: "mem_inv m" and pos: "0 < curr_size m"
    and dims: "length (state_shape m) = 2 \<or> length (state_shape m) = 3"
    and hC: "history_len m \<le> max_size m + 2"
  shows "\<exists>fs. sample m idx0 =
           Inr ((frames_last fs (prod_list (state_shape m)),
                 window_read m idx0 (mem_reward m)
                   ! (length (window_read m idx0 (mem_state m)) - 2),
                 window_read m idx0 (mem_action m)
                   ! (length (window_read m idx0 (mem_state m)) - 2),
                 window_read m idx0 (mem_isOver m)
                   ! (length (window_read m idx0 (mem_state m)) - 2)), m) \<and>
           length fs = length (window_read m idx0 (mem_state m)) \<and>
           (\<forall>j<length fs. length (fs ! j) = prod_list (state_shape m)) \<and>
           ((\<forall>j<history_len m - 1. \<not> window_read m idx0 (mem_isOver m) ! j) \<longrightarrow>
              (\<forall>j<length fs. fs ! j = window_read m idx0 (mem_state m) ! j)) \<and>
           (\<forall>k<history_len m - 1.
              window_read m idx0 (mem_isOver m) ! k \<and>
              (\<forall>j. k < j \<and> j < history_len m - 1 \<longrightarrow> \<not> window_read m idx0 (mem_isOver m) ! j) \<longrightarrow>
              (\<forall>j<length fs.
                 fs ! j = (if j \<le> k then zeros (state_shape m)
                           else window_read m idx0 (mem_state m) ! j)))"
proof -
  let ?h = "history_len m" and ?C = "max_size m" and ?idx = "phys m idx0"
  let ?P = "prod_list (state_shape m)"
  define ws where "ws = window_read m idx0 (mem_state m)"
  define wr where "wr = window_read m idx0 (mem_reward m)"
  define wa where "wa = window_read m idx0 (mem_action m)"
  define wo where "wo = window_read m idx0 (mem_isOver m)"
  from inv have h: "0 < ?h" and C: "0 < ?C" and sz: "curr_size m \<le> ?C"
    and ls: "length (mem_state m) = ?C" "length (mem_reward m) = ?C"
      "length (mem_action m) = ?C" "length (mem_isOver m) = ?C"
    and fr: "list_all (\<lambda>f. length f = ?P) (mem_state m)"
    by (simp_all add: mem_inv_def)
  have lt: "?idx < curr_size m" by (rule phys_less[OF pos])
  have len: "length wr = length ws" "length wa = length ws" "length wo = length ws"
    unfolding ws_def wr_def wa_def wo_def
    by (simp_all only: window_read_length[OF ls(1) sz] window_read_length[OF ls(2) sz]
          window_read_length[OF ls(3) sz] window_read_length[OF ls(4) sz])
  have L: "2 \<le> length ws" "?h - 1 \<le> length ws"
    unfolding ws_def window_read_length[OF ls(1) sz]
    using lt sz hC h by (auto simp: min_def)
  have fl: "length (ws ! j) = ?P" if "j < length ws" for j
  proof -
    have "ws ! j \<in> set (mem_state m)"
      using that window_read_set[of m idx0 "mem_state m"] unfolding ws_def by auto
    with fr show ?thesis by (simp add: list_all_iff)
  qed
  from sample_window_read[OF pos] obtain st where
    s: "sample m idx0 = pad_sample m st wr wa wo" and r: "read_arr m st = ws"
    unfolding ws_def wr_def wa_def wo_def by blast
  have lens: "?h - 1 \<le> length wo" "2 \<le> length wr" "2 \<le> length wa" "2 \<le> length wo"
    using L len by simp_all
  show ?thesis
  proof (cases "\<exists>k<?h - 1. wo ! k")
    case False
    then have none: "\<forall>j<?h - 1. \<not> wo ! j" by simp
    have "sample m idx0 = Inr ((frames_last ws ?P, wr ! (length ws - 2),
             wa ! (length ws - 2), wo ! (length ws - 2)), m)"
      unfolding s pad_sample_none[OF dims lens none] r len ..
    then show ?thesis
      unfolding ws_def[symmetric] wr_def[symmetric] wa_def[symmetric] wo_def[symmetric]
      using fl none by (intro exI[of _ ws]) auto
  next
    case True
    then obtain k0 where "k0 < ?h - 1" "wo ! k0" by blast
    from ex_latest[of k0 "?h - 1" "\<lambda>j. wo ! j", OF this] obtain k where
      k: "k < ?h - 1" "wo ! k" "\<forall>j. k < j \<and> j < ?h - 1 \<longrightarrow> \<not> wo ! j" by blast
    let ?fs = "fill0 ws 0 (k + 1)"
    have smp: "sample m idx0 = Inr ((frames_last ?fs ?P, wr ! (length ws - 2),
             wa ! (length ws - 2), wo ! (length ws - 2)), m)"
      unfolding s pad_sample_some[OF dims lens k] r len ..
    have fs_nth: "?fs ! j = (if j \<le> k then zeros (state_shape m) else ws ! j)"
      if "j < length ws" for j
      using that fl[OF that] by (auto simp: fill0_nth zero_fill_zeros)
    have fs_len: "length (?fs ! j) = ?P" if "j < length ws" for j
      using fs_nth[OF that] fl[OF that] by (simp add: zeros_def)
    have uniq: "k' = k"
      if "k' < ?h - 1" "wo ! k'" "\<forall>j. k' < j \<and> j < ?h - 1 \<longrightarrow> \<not> wo ! j" for k'
    proof (rule ccontr)
      assume "k' \<noteq> k"
      then consider "k' < k" | "k < k'" by arith
      then show False
      proof cases
        case 1
        with that(3) k(1,2) show False by simp
      next
        case 2
        with k(3) that(1,2) show False by simp
      qed
    qed
    have some: "\<exists>k<?h - 1. wo ! k" using k(1,2) by auto
    have l: "length ?fs = length ws" by (simp add: fill0_length)
    have lens': "\<forall>j<length ?fs. length (?fs ! j) = ?P"
      using fs_len unfolding l by blast
    have last: "\<forall>ka<?h - 1. wo ! ka \<and> (\<forall>j. ka < j \<and> j < ?h - 1 \<longrightarrow> \<not> wo ! j) \<longrightarrow>
                  (\<forall>j<length ?fs. ?fs ! j = (if j \<le> ka then zeros (state_shape m) else ws ! j))"
    proof (intro allI impI)
      fix ka j
      assume "ka < ?h - 1" and "wo ! ka \<and> (\<forall>j. ka < j \<and> j < ?h - 1 \<longrightarrow> \<not> wo ! j)"
        and j: "j < length ?fs"
      then have "ka = k" using uniq by blast
      moreover from j have "j < length ws" unfolding l .
      ultimately show "?fs ! j = (if j \<le> ka then zeros (state_shape m) else ws ! j)"
        using fs_nth by blast
    qed
    show ?thesis
      unfolding ws_def[symmetric] wr_def[symmetric] wa_def[symmetric] wo_def[symmetric]
      apply (intro exI[of _ ?fs] conjI)
          apply (rule smp)
         apply (rule l)
        apply (rule lens')
       using some apply blast
      apply (rule last)
      done
  qed
qed

text \<open>
  Claim C8, amended. \<open>sample\<close> does not validate its index. Let the memory satisfy the
  invariant and hold at least one transition, let its frames have two or three
  dimensions, and let the history length be at most the capacity plus two (beyond that
  the scan of \<open>pad_sample\<close> can leave a truncated window). Then for every index the call
  raises no error and leaves the memory as it is. What it returns is read from the
  windows that its slices cut from the four arrays, whatever the slots hold: the reward,
  the action and the terminal flag are the second-to-last entries of their windows, and
  the frames of the stacked state are the frames of the state window, those up to the
  latest terminal position among \<open>0, ..., history_len - 2\<close> replaced by zero frames. As
  stated the claim fails: with one transition stored and a window of three, \<open>sample\<close>
  returns a stacked state that holds the zero-initialised slots, and no error.
\<close>

theorem sample_does_not_validate:
  assumes inv: "mem_inv m" and pos: "0 < curr_size m"
    and dims: "length (state_shape m) = 2 \<or> length (state_shape m) = 3"
    and hC: "history_len m \<le> max_size m + 2"
  shows "\<exists>st. sample m idx0 =
           Inr ((st,
                 window_read m idx0 (mem_reward m)
                   ! (length (window_read m idx0 (mem_state m)) - 2),
                 window_read m idx0 (mem_action m)
                   ! (length (window_read m idx0 (mem_state m)) - 2),
                 window_read m idx0 (mem_isOver m)
                   ! (length (window_read m idx0 (mem_state m)) - 2)), m) \<and>
           list_all (\<lambda>px. length px = length (window_read m idx0 (mem_state m))) st \<and>
           set (window_read m idx0 (mem_state m)) \<subseteq> set (mem_state m) \<and>
           ((\<forall>j<history_len m - 1. \<not> window_read m idx0 (mem_isOver m) ! j) \<longrightarrow>
              (\<forall>j<length (window_read m idx0 (mem_state m)).
                 stack_frame st j = window_read m idx0 (mem_state m) ! j)) \<and>
           (\<forall>k<history_len m - 1.
              window_read m idx0 (mem_isOver m) ! k \<and>
              (\<forall>j. k < j \<and> j < history_len m - 1 \<longrightarrow> \<not> window_read m idx0 (mem_isOver m) ! j) \<longrightarrow>
              (\<forall>j<length (window_read m idx0 (mem_state m)).
                 stack_frame st j = (if j \<le> k then zeros (state_shape m)
                                     else window_read m idx0 (mem_state m) ! j)))"
proof -
  let ?ws = "window_read m idx0 (mem_state m)" and ?wo = "window_read m idx0 (mem_isOver m)"
  let ?P = "prod_list (state_shape m)"
  from sample_any_window[OF assms, of idx0] obtain fs where
    s: "sample m idx0 =
           Inr ((frames_last fs ?P,
                 window_read m idx0 (mem_reward m) ! (length ?ws - 2),
                 window_read m idx0 (mem_action m) ! (length ?ws - 2),
                 ?wo ! (length ?ws - 2)), m)" and
    l: "length fs = length ?ws" and
    fl: "\<forall>j<length fs. length (fs ! j) = ?P" and
    none: "(\<forall>j<history_len m - 1. \<not> ?wo ! j) \<longrightarrow> (\<forall>j<length fs. fs ! j = ?ws ! j)" and
    some: "\<forall>k<history_len m - 1.
              ?wo ! k \<and> (\<forall>j. k < j \<and> j < history_len m - 1 \<longrightarrow> \<not> ?wo ! j) \<longrightarrow>
              (\<forall>j<length fs. fs ! j = (if j \<le> k then zeros (state_shape m) else ?ws ! j))"
    by blast
  have sf: "stack_frame (frames_last fs ?P) j = fs ! j" if "j < length ?ws" for j
    using that l fl by (intro stack_frame_frames_last) auto
  have px: "list_all (\<lambda>px. length px = length ?ws) (frames_last fs ?P)"
    using frames_last_length[of fs] l by (simp add: list_all_iff)
  show ?thesis
    apply (intro exI[of _ "frames_last fs ?P"] conjI)
        apply (rule s)
       apply (rule px)
      apply (rule window_read_set)
    using none sf l apply simp
    using some sf l apply simp
    done
qed

theorem sample_does_not_validate_witness:
  "0 < curr_size (scen_mem 1) \<and>
   (\<exists>st. sample (scen_mem 1) 7 = Inr ((st, 1, 1, False), scen_mem 1) \<and>
      list_all (\<lambda>px. length px = 7) st \<and>
      stack_frame st 0 = [1] \<and> stack_frame st 1 = [0] \<and> stack_frame st 5 = [1])"
proof -
  let ?m = "scen_mem 1"
  have inv: "mem_inv ?m" by (rule scen_mem_inv)
  have pos: "0 < curr_size ?m" by (simp add: scen_fields)
  have dims: "length (state_shape ?m) = 2 \<or> length (state_shape ?m) = 3"
    by (simp add: scen_fields)
  have hC: "history_len ?m \<le> max_size ?m + 2"
    by (simp add: scen_fields)
  have w: "window_read ?m 7 (mem_state ?m) = [[1], [0], [0], [0], [0], [1], [0]]"
    "window_read ?m 7 (mem_reward ?m) = [1, 0, 0, 0, 0, 1, 0]"
    "window_read ?m 7 (mem_action ?m) = [1, 0, 0, 0, 0, 1, 0]"
    "window_read ?m 7 (mem_isOver ?m) = [False, False, False, False, False, False, False]"
    by code_simp+
  from sample_does_not_validate[OF inv pos dims hC, of 7] obtain st where
    s: "sample ?m 7 = Inr ((st,
          window_read ?m 7 (mem_reward ?m) ! (length (window_read ?m 7 (mem_state ?m)) - 2),
          window_read ?m 7 (mem_action ?m) ! (length (window_read ?m 7 (mem_state ?m)) - 2),
          window_read ?m 7 (mem_isOver ?m) ! (length (window_read ?m 7 (mem_state ?m)) - 2)),
          ?m)" and
    px: "list_all (\<lambda>px. length px = length (window_read ?m 7 (mem_state ?m))) st" and
    none: "(\<forall>j<history_len ?m - 1. \<not> window_read ?m 7 (mem_isOver ?m) ! j) \<longrightarrow>
              (\<forall>j<length (window_read ?m 7 (mem_state ?m)).
                 stack_frame st j = window_read ?m 7 (mem_state ?m) ! j)"
    by blast
  have p: "\<forall>j<history_len ?m - 1. \<not> window_read ?m 7 (mem_isOver ?m) ! j"
    unfolding w by (simp add: scen_fields)
  from none p have fr: "\<And>j. j < length (window_read ?m 7 (mem_state ?m)) \<Longrightarrow>
                 stack_frame st j = window_read ?m 7 (mem_state ?m) ! j"
    by blast
  have "sample ?m 7 = Inr ((st, 1, 1, False), ?m)"
    using s unfolding w by simp
  moreover have "length [[1], [0], [0], [0], [0], [1], [0::8 word]] = 7" by simp
  then have "list_all (\<lambda>px. length px = 7) st"
    using px unfolding w by (simp only:)
  moreover have "stack_frame st 0 = [1]" "stack_frame st 1 = [0]" "stack_frame st 5 = [1]"
    using fr[of 0] fr[of 1] fr[of 5] unfolding w by simp_all
  ultimately show ?thesis using pos by blast
qed

theorem sample_insufficient_history_counterexample:
  "ReplayMemory_init 5 [1, 1] 2 = Inr (scen_mem 0) \<and>
   appends float32_int (scen_mem 0) [scen_exp 1] = Inr (scen_mem 1) \<and>
   len (scen_mem 1) < history_len (scen_mem 1) + 1 \<and>
   sample (scen_mem 1) 0 = Inr (([[1, 0, 0, 0, 0, 1, 0]], 1, 1, False), scen_mem 1)"
proof -
  have "sample (scen_mem 1) 0 = Inr (([[1, 0, 0, 0, 0, 1, 0]], 1, 1, False), scen_mem 1)"
    by code_simp
  then show ?thesis
    unfolding scen_init scen_appends(1) by (simp add: len_def scen_fields)
qed

text \<open>
  A write through a view reaches the memory: zero-filling the first frame of the view
  of the slots 2, 3, 4 of the scenario overwrites slot 2.
\<close>

lemma fill_prefix_view_writes_memory:
  "fill_prefix (scen_mem 5) (View 2 5) 1 =
     (View 2 5, (scen_mem 5)\<lparr> mem_state := [[1], [2], [0], [4], [5]] \<rparr>)"
  by (simp add: fill_prefix_def fill0_def scen_mem_def upt_rec)

text \<open>
  Claim C10. A call of \<open>sample\<close> that returns leaves the memory as it was: the four
  arrays, the write position, the fill count and the deque. So does \<open>pad_sample\<close> on any
  window, a view included: when the zeroing triggers, the window is copied first and the
  zeros go to the copy. (\<open>recent_state\<close> and \<open>len\<close> assign to nothing in the source and
  are functions of the memory.)
\<close>

theorem reads_leave_memory_unchanged:
  "(sample m idx0 = Inr (r, m') \<longrightarrow> m' = m) \<and>
   (pad_sample m st reward_w action_w isOver_w = Inr (r', m'') \<longrightarrow> m'' = m)"
  using sample_mem[of m idx0 r m'] pad_sample_mem[of m st reward_w action_w isOver_w r' m'']
  by blast

theorem reads_leave_memory_unchanged_witness:
  "sample (scen_mem 5) 2 = Inr (([[0, 4, 5]], 4, 4, False), scen_mem 5) \<and>
   mem_state (scen_mem 5) = [[1], [2], [3], [4], [5]]"
proof -
  have "sample (scen_mem 5) 2 = Inr (([[0, 4, 5]], 4, 4, False), scen_mem 5)"
    by code_simp
  then obtain m' where s: "sample (scen_mem 5) 2 = Inr (([[0, 4, 5]], 4, 4, False), m')" ..
  with reads_leave_memory_unchanged[of "scen_mem 5" 2 "([[0, 4, 5]], 4, 4, False)" m']
  have "m' = scen_mem 5" by simp
  with s show ?thesis by (simp add: scen_arrays)
qed

text \<open>
  Claim C3, amended. In the scenario (capacity 5, history length 2, frames of shape
  1 x 1, states 1, 2, 3 (terminal), 4, 5) the length is 5 after the five appends.
  \<open>sample 0\<close> zero-fills nothing; its stacked state is \<open>[1, 2, 3]\<close>, the
  \<open>history_len + 1 = 3\<close> frames of the window, and its reward, action and terminal flag
  are those of the transition with state 2. \<open>sample 1\<close> zero-fills nothing either: its
  stacked state is \<open>[2, 3, 4]\<close>, the terminal flag of frame 3 being at window position 1,
  outside the scanned position 0, and it returns the fields of the transition with
  state 3. The claim's stacked state \<open>[1, 2]\<close> for \<open>sample 0\<close> is not what is returned.
\<close>

theorem scenario_samples:
  "ReplayMemory_init 5 [1, 1] 2 = Inr (scen_mem 0) \<and>
   appends float32_int (scen_mem 0) [scen_exp 1, scen_exp 2, scen_exp 3, scen_exp 4, scen_exp 5]
     = Inr (scen_mem 5) \<and>
   len (scen_mem 5) = 5 \<and>
   sample (scen_mem 5) 0 =
     Inr (([[1, 2, 3]], reward (scen_exp 2), action (scen_exp 2), isOver (scen_exp 2)),
          scen_mem 5) \<and>
   sample (scen_mem 5) 1 =
     Inr (([[2, 3, 4]], reward (scen_exp 3), action (scen_exp 3), isOver (scen_exp 3)),
          scen_mem 5) \<and>
   isOver (scen_exp 3) \<and> \<not> isOver (scen_exp 2)"
proof -
  have "sample (scen_mem 5) 0 = Inr (([[1, 2, 3]], 2, 2, False), scen_mem 5)"
    by code_simp
  moreover have "sample (scen_mem 5) 1 = Inr (([[2, 3, 4]], 3, 3, True), scen_mem 5)"
    by code_simp
  ultimately show ?thesis
    using scen_init scen_appends(4) by (simp add: len_def scen_fields scen_exp_def)
qed

theorem scenario_stacked_state_counterexample:
  "\<not> (\<exists>r a t m'. sample (scen_mem 5) 0 = Inr (([[1, 2]], r, a, t), m'))"
proof -
  have "sample (scen_mem 5) 0 = Inr (([[1, 2, 3]], 2, 2, False), scen_mem 5)"
    by code_simp
  then show ?thesis by simp
qed

section \<open>Failures in the triggers\<close>








end
